theory Spec2Isabelle
  imports Complex_Main "HOL-Library.Sublist"
begin

section \<open>JavaScript strings\<close>

text \<open>
  A JavaScript string is a sequence of UTF-16 code units; \<open>length\<close>, \<open>slice\<close>,
  \<open>includes\<close> and the regular expressions of the program all work on code units. A code
  unit is modelled by its number, so the Chinese literals of the source appear below as
  lists of code points (all of them in the Basic Multilingual Plane, one unit each).
\<close>

type_synonym jsstring = "nat list"

definition asc :: "string \<Rightarrow> jsstring" where
  "asc s = map of_char s"

text \<open>White space as the regular expression class \<open>\s\<close> and \<open>String.prototype.trim\<close> see it.\<close>

definition isSpace :: "nat \<Rightarrow> bool" where
  "isSpace c \<longleftrightarrow>
     c = 0x09 \<or> c = 0x0A \<or> c = 0x0B \<or> c = 0x0C \<or> c = 0x0D \<or> c = 0x20 \<or> c = 0xA0 \<or>
     c = 0x1680 \<or> (0x2000 \<le> c \<and> c \<le> 0x200A) \<or> c = 0x2028 \<or> c = 0x2029 \<or>
     c = 0x202F \<or> c = 0x205F \<or> c = 0x3000 \<or> c = 0xFEFF"

text \<open>\<open>s.replace(/\s+/g, "")\<close>\<close>

definition stripSpaces :: "jsstring \<Rightarrow> jsstring" where
  "stripSpaces s = filter (\<lambda>c. \<not> isSpace c) s"

text \<open>\<open>s.trim()\<close>\<close>

definition trim :: "jsstring \<Rightarrow> jsstring" where
  "trim s = rev (dropWhile isSpace (rev (dropWhile isSpace s)))"

text \<open>
  \<open>s.toLowerCase()\<close>, as the command parser and the webhook handler use it: the
  lower-cased text is only compared with fixed words of the program (the \<open>ai/\<close> prefix, the
  command names and the field aliases), which consist of ASCII lower-case letters, digits,
  signs and Chinese characters. The Unicode default lower-case mapping sends exactly the
  code points A to Z, U+0130 and U+212A (Kelvin sign) to text that contains an ASCII
  character, and these are modelled. Every other code unit is left as it is: the
  lower-case forms of the remaining cased letters are not reproduced here; none of them
  is a character of those fixed words, so these comparisons come out as in the program.
  The keyword lookups compare lower-cased user text with lower-cased keywords of the data
  files, where every cased letter counts; there the lower-case mapping of the runtime is
  a parameter (see \<open>normalizeBy\<close> below).
\<close>

definition lowerUnit :: "nat \<Rightarrow> jsstring" where
  "lowerUnit c =
     (if 0x41 \<le> c \<and> c \<le> 0x5A then [c + 32]
      else if c = 0x212A then [0x6B]
      else if c = 0x130 then [0x69, 0x307]
      else [c])"

definition toLowerCase :: "jsstring \<Rightarrow> jsstring" where
  "toLowerCase s = concat (map lowerUnit s)"

text \<open>\<open>s.startsWith(p)\<close> is \<^const>\<open>prefix\<close>; \<open>s.includes(p)\<close> scans the start positions.\<close>

fun includesStr :: "jsstring \<Rightarrow> jsstring \<Rightarrow> bool" where
  "includesStr [] p = (p = [])"
| "includesStr (c # s) p = (prefix p (c # s) \<or> includesStr s p)"

text \<open>\<open>normalize\<close> of the webhook handler: lower case, all white space removed.\<close>

definition normalize :: "jsstring \<Rightarrow> jsstring" where
  "normalize text = (if text = [] then [] else stripSpaces (toLowerCase text))"

text \<open>
  \<open>normalize\<close> of \<open>articles.js\<close>, the same function text. Its results are compared with
  one another (a keyword of the data file with the user's text), so the whole lower-case
  mapping of the runtime matters. That mapping is a table of the Unicode standard built
  into the runtime; it is the parameter \<open>lower\<close>, which stands for
  \<open>String.prototype.toLowerCase\<close>.
\<close>

definition normalizeBy :: "(jsstring \<Rightarrow> jsstring) \<Rightarrow> jsstring \<Rightarrow> jsstring" where
  "normalizeBy lower text = (if text = [] then [] else stripSpaces (lower text))"

section \<open>Reply length guard\<close>

text \<open>The truncation marker: a line feed, an ellipsis and the bracketed words for "truncated".\<close>

definition truncationMarker :: jsstring where
  "truncationMarker = [0x0A, 0x2026, 0xFF08, 0x5DF2, 0x622A, 0x65B7, 0xFF09]"

definition ensureLineLengthAt :: "jsstring \<Rightarrow> nat \<Rightarrow> jsstring" where
  "ensureLineLengthAt s limit =
     (if s = [] then s
      else if length s > limit then take limit s @ truncationMarker else s)"

text \<open>The call with the default argument \<open>limit = 4500\<close>.\<close>

definition ensureLineLength :: "jsstring \<Rightarrow> jsstring" where
  "ensureLineLength s = ensureLineLengthAt s 4500"

section \<open>JavaScript numbers\<close>

text \<open>
  The values a numeric field of the program can hold: \<open>undefined\<close> (an absent field),
  \<open>NaN\<close>, or a number. Numbers are exact rationals: the rounding and the overflow of
  binary64 arithmetic are not modelled. The products and sums of the calculator are
  therefore those of the program only up to rounding, and no statement below is about
  their values; the statements are about the wage guard, the sign of the parsed values and
  the clamps, which compare and select numbers without rounding them.
\<close>

datatype jsval = Undefined | NaN | Num rat

text \<open>Truthiness: \<open>undefined\<close>, \<open>NaN\<close> and \<open>0\<close> are falsy.\<close>

fun truthy :: "jsval \<Rightarrow> bool" where
  "truthy (Num r) = (r \<noteq> 0)"
| "truthy _ = False"

text \<open>\<open>a || b\<close>\<close>

definition orElse :: "jsval \<Rightarrow> jsval \<Rightarrow> jsval" where
  "orElse a b = (if truthy a then a else b)"

text \<open>\<open>Number.isNaN\<close> is true of the value \<open>NaN\<close> only.\<close>

fun numberIsNaN :: "jsval \<Rightarrow> bool" where
  "numberIsNaN NaN = True"
| "numberIsNaN _ = False"

text \<open>Arithmetic converts \<open>undefined\<close> to \<open>NaN\<close>, and \<open>NaN\<close> is contagious.\<close>

fun arith2 :: "(rat \<Rightarrow> rat \<Rightarrow> rat) \<Rightarrow> jsval \<Rightarrow> jsval \<Rightarrow> jsval" where
  "arith2 f (Num a) (Num b) = Num (f a b)"
| "arith2 f _ _ = NaN"

definition jsMul :: "jsval \<Rightarrow> jsval \<Rightarrow> jsval" where
  "jsMul = arith2 (\<lambda>a b. a * b)"

definition jsAdd :: "jsval \<Rightarrow> jsval \<Rightarrow> jsval" where
  "jsAdd = arith2 (\<lambda>a b. a + b)"

definition jsSub :: "jsval \<Rightarrow> jsval \<Rightarrow> jsval" where
  "jsSub = arith2 (\<lambda>a b. a - b)"

definition mathMax :: "jsval \<Rightarrow> jsval \<Rightarrow> jsval" where
  "mathMax = arith2 max"

definition mathMin :: "jsval \<Rightarrow> jsval \<Rightarrow> jsval" where
  "mathMin = arith2 min"

text \<open>A comparison with \<open>NaN\<close> or \<open>undefined\<close> is false.\<close>

fun jsLe :: "jsval \<Rightarrow> jsval \<Rightarrow> bool" where
  "jsLe (Num a) (Num b) = (a \<le> b)"
| "jsLe _ _ = False"

fun jsGt :: "jsval \<Rightarrow> jsval \<Rightarrow> bool" where
  "jsGt (Num a) (Num b) = (a > b)"
| "jsGt _ _ = False"

text \<open>\<open>Math.round\<close>: the nearest integer, a half rounded up.\<close>

fun mathRound :: "jsval \<Rightarrow> jsval" where
  "mathRound (Num a) = Num (of_int \<lfloor>a + 1 / 2\<rfloor>)"
| "mathRound _ = NaN"

subsection \<open>parseFloat\<close>

definition isDigit :: "nat \<Rightarrow> bool" where
  "isDigit c \<longleftrightarrow> 0x30 \<le> c \<and> c \<le> 0x39"

text \<open>The value of a run of ASCII digits, as \<open>parseInt(ds, 10)\<close> reads it.\<close>

definition digitsValue :: "jsstring \<Rightarrow> nat" where
  "digitsValue ds = foldl (\<lambda>a c. 10 * a + (c - 0x30)) 0 ds"

text \<open>
  The exponent part that may follow the mantissa: \<open>e\<close> or \<open>E\<close>, an optional sign and at
  least one digit; anything else is no exponent.
\<close>

definition exponentDigits :: "jsstring \<Rightarrow> int option" where
  "exponentDigits s =
     (let ds = takeWhile isDigit s in if ds = [] then None else Some (int (digitsValue ds)))"

definition parseExponent :: "jsstring \<Rightarrow> int" where
  "parseExponent s =
     (case s of
        [] \<Rightarrow> 0
      | c # r \<Rightarrow>
          if c = 0x65 \<or> c = 0x45 then
            (case r of
               [] \<Rightarrow> 0
             | d # r' \<Rightarrow>
                 if d = 0x2D then (case exponentDigits r' of None \<Rightarrow> 0 | Some e \<Rightarrow> - e)
                 else if d = 0x2B then (case exponentDigits r' of None \<Rightarrow> 0 | Some e \<Rightarrow> e)
                 else (case exponentDigits r of None \<Rightarrow> 0 | Some e \<Rightarrow> e))
          else 0)"

definition scale10 :: "int \<Rightarrow> rat" where
  "scale10 e = (if e \<ge> 0 then 10 ^ nat e else 1 / 10 ^ nat (- e))"

text \<open>
  An unsigned decimal literal at the start of the string: digits, an optional point with
  optional digits, an optional exponent; at least one digit before or after the point.
\<close>

definition parseUnsigned :: "jsstring \<Rightarrow> rat option" where
  "parseUnsigned s =
     (let ip = takeWhile isDigit s;
          r1 = dropWhile isDigit s;
          pointed = (r1 \<noteq> [] \<and> hd r1 = 0x2E);
          fp = (if pointed then takeWhile isDigit (tl r1) else []);
          r2 = (if pointed then dropWhile isDigit (tl r1) else r1)
      in if ip = [] \<and> fp = [] then None
         else Some ((of_nat (digitsValue ip) + of_nat (digitsValue fp) / 10 ^ length fp)
                    * scale10 (parseExponent r2)))"

text \<open>
  \<open>parseFloat\<close>: leading white space is skipped, a sign is read, and the longest prefix
  that is a decimal literal gives the value; with no such prefix the result is \<open>NaN\<close>.
  The literal \<open>Infinity\<close> is left out, \<^typ>\<open>jsval\<close> having no infinite value.
\<close>

definition parseFloat :: "jsstring \<Rightarrow> jsval" where
  "parseFloat s =
     (case dropWhile isSpace s of
        [] \<Rightarrow> NaN
      | c # r \<Rightarrow>
          if c = 0x2D then (case parseUnsigned r of None \<Rightarrow> NaN | Some v \<Rightarrow> Num (- v))
          else if c = 0x2B then (case parseUnsigned r of None \<Rightarrow> NaN | Some v \<Rightarrow> Num v)
          else (case parseUnsigned (c # r) of None \<Rightarrow> NaN | Some v \<Rightarrow> Num v))"

section \<open>Overtime pay calculator\<close>

record ot_params =
  hourly :: jsval
  weekday :: jsval
  rest :: jsval
  holiday :: jsval
  weekdayRate1 :: jsval
  weekdayRate2 :: jsval
  restRate :: jsval
  holidayRate :: jsval

text \<open>The defaults \<open>parseOtArgs\<close> starts from.\<close>

definition defaultParams :: ot_params where
  "defaultParams =
     \<lparr>hourly = NaN, weekday = Num 0, rest = Num 0, holiday = Num 0,
      weekdayRate1 = Num (133 / 100), weekdayRate2 = Num (166 / 100),
      restRate = Num 2, holidayRate = Num 2\<rparr>"

text \<open>The command word of the calculator.\<close>

definition otCommand :: jsstring where
  "otCommand = [0x8A66, 0x7B97, 0x52A0, 0x73ED, 0x8CBB]"

text \<open>\<open>text.replace(/^CMD/i, "")\<close>: the command word is removed where the text starts with it.\<close>

definition stripCommand :: "jsstring \<Rightarrow> jsstring" where
  "stripCommand text = (if prefix otCommand text then drop (length otCommand) text else text)"

text \<open>
  \<open>s.split(sep)\<close> for a separator of one code unit, and for the pattern \<open>\s+\<close> followed by
  \<open>filter(Boolean)\<close>: the pieces between separators. Cutting at every single white-space
  unit gives the pieces of \<open>\s+\<close> and further empty ones, which the filter removes.
\<close>

fun splitWhere :: "(nat \<Rightarrow> bool) \<Rightarrow> jsstring \<Rightarrow> jsstring list" where
  "splitWhere P [] = [[]]"
| "splitWhere P (c # s) =
     (if P c then [] # splitWhere P s
      else (case splitWhere P s of [] \<Rightarrow> [[c]] | t # ts \<Rightarrow> (c # t) # ts))"

definition tokensOf :: "jsstring \<Rightarrow> jsstring list" where
  "tokensOf parts = filter (\<lambda>t. t \<noteq> []) (splitWhere isSpace parts)"

text \<open>
  \<open>mapKeys\<close>: the alias tests in the order of the source, each a search for one of the
  listed words anywhere in the lower-cased key; a key that matches none is returned as it is.
\<close>

definition anyIncluded :: "jsstring \<Rightarrow> jsstring list \<Rightarrow> bool" where
  "anyIncluded kk ws = list_ex (includesStr kk) ws"

definition mapKeys :: "jsstring \<Rightarrow> jsstring" where
  "mapKeys k =
     (let kk = toLowerCase k in
      if anyIncluded kk [[0x6642, 0x85AA], asc ''hour'', asc ''hourly'', asc ''wage'']
        then asc ''hourly''
      else if anyIncluded kk [[0x5E73, 0x65E5, 0x52A0, 0x73ED], [0x5E73, 0x65E5]]
        then asc ''weekday''
      else if anyIncluded kk [[0x4F11, 0x606F, 0x65E5, 0x52A0, 0x73ED], [0x4F11, 0x606F, 0x65E5],
                              [0x4F11, 0x5047, 0x65E5]]
        then asc ''rest''
      else if anyIncluded kk [[0x5047, 0x65E5, 0x52A0, 0x73ED], [0x570B, 0x5B9A, 0x5047, 0x65E5],
                              [0x570B, 0x5047], [0x5047, 0x65E5]]
        then asc ''holiday''
      else if anyIncluded kk [[0x5E73, 0x65E5, 0x500D, 0x6578, 0x31], asc ''weekdayrate1'',
                              asc ''wkr1'']
        then asc ''weekdayRate1''
      else if anyIncluded kk [[0x5E73, 0x65E5, 0x500D, 0x6578, 0x32], asc ''weekdayrate2'',
                              asc ''wkr2'']
        then asc ''weekdayRate2''
      else if anyIncluded kk [[0x4F11, 0x606F, 0x65E5, 0x500D, 0x6578], asc ''restrate'']
        then asc ''restRate''
      else if anyIncluded kk [[0x5047, 0x65E5, 0x500D, 0x6578], asc ''holidayrate'']
        then asc ''holidayRate''
      else kk)"

text \<open>\<open>params[key] = val\<close> for the eight field names.\<close>

definition setField :: "jsstring \<Rightarrow> jsval \<Rightarrow> ot_params \<Rightarrow> ot_params" where
  "setField key v p =
     (if key = asc ''hourly'' then p\<lparr>hourly := v\<rparr>
      else if key = asc ''weekday'' then p\<lparr>weekday := v\<rparr>
      else if key = asc ''rest'' then p\<lparr>rest := v\<rparr>
      else if key = asc ''holiday'' then p\<lparr>holiday := v\<rparr>
      else if key = asc ''weekdayRate1'' then p\<lparr>weekdayRate1 := v\<rparr>
      else if key = asc ''weekdayRate2'' then p\<lparr>weekdayRate2 := v\<rparr>
      else if key = asc ''restRate'' then p\<lparr>restRate := v\<rparr>
      else if key = asc ''holidayRate'' then p\<lparr>holidayRate := v\<rparr>
      else p)"

text \<open>The value coercion: every unit that is neither a digit nor a point is deleted.\<close>

definition coerceValue :: "jsstring \<Rightarrow> jsval" where
  "coerceValue rawV = parseFloat (filter (\<lambda>c. isDigit c \<or> c = 0x2E) rawV)"

text \<open>
  The body of the \<open>forEach\<close>: \<open>[rawK, rawV] = t.split("=")\<close> takes the first two pieces;
  a token with an empty key or without \<open>=\<close> is skipped, and so is a value that is \<open>NaN\<close>.
\<close>

definition applyToken :: "ot_params \<Rightarrow> jsstring \<Rightarrow> ot_params" where
  "applyToken params t =
     (case splitWhere (\<lambda>c. c = 0x3D) t of
        rawK # rawV # _ \<Rightarrow>
          if rawK = [] then params
          else
            (let key = mapKeys (trim rawK); val = coerceValue rawV in
             if key \<in> set [asc ''hourly'', asc ''weekday'', asc ''rest'', asc ''holiday'']
               then (if \<not> numberIsNaN val then setField key val params else params)
             else if key \<in> set [asc ''weekdayRate1'', asc ''weekdayRate2'', asc ''restRate'',
                                 asc ''holidayRate'']
               then (if \<not> numberIsNaN val then setField key val params else params)
             else params)
      | _ \<Rightarrow> params)"

definition parseOtArgs :: "jsstring \<Rightarrow> ot_params" where
  "parseOtArgs text = foldl applyToken defaultParams (tokensOf (trim (stripCommand text)))"

text \<open>
  The result of \<open>computeOtPay\<close>. The failure is the object \<open>{ok: false, message}\<close>. On
  success the message is built from the values kept here: the wage, the clamped hours, the
  three subtotals and the total (each shown through \<open>Math.round\<close>), and the warning that
  is added when the weekday hours exceed 4. The wording of the message is not reproduced.
\<close>

datatype ot_error = InvalidWage

record ot_result =
  wage :: jsval
  wk :: jsval
  rs :: jsval
  hd_hours :: jsval
  weekdayPay :: jsval
  restPay :: jsval
  holidayPay :: jsval
  total :: jsval
  shownWeekday :: jsval
  shownRest :: jsval
  shownHoliday :: jsval
  shownTotal :: jsval
  warnOver4 :: bool

definition computeOtPay :: "ot_params \<Rightarrow> ot_error + ot_result" where
  "computeOtPay p =
     (let h = hourly p;
          wk = mathMax (Num 0) (orElse (weekday p) (Num 0));
          rs = mathMax (Num 0) (orElse (rest p) (Num 0));
          hd = mathMax (Num 0) (orElse (holiday p) (Num 0))
      in if \<not> truthy h \<or> numberIsNaN h \<or> jsLe h (Num 0) then Inl InvalidWage
         else
           (let wk1 = mathMin (Num 2) wk;
                wk2 = mathMax (Num 0) (mathMin (Num 2) (jsSub wk wk1));
                wk3 = mathMax (Num 0) (jsSub (jsSub wk wk1) wk2);
                weekdayPay =
                  jsMul h (jsAdd (jsAdd (jsMul wk1 (weekdayRate1 p)) (jsMul wk2 (weekdayRate2 p)))
                                 (jsMul wk3 (weekdayRate2 p)));
                restPay = jsMul h (jsMul rs (restRate p));
                holidayPay = jsMul h (jsMul hd (holidayRate p));
                total = jsAdd (jsAdd weekdayPay restPay) holidayPay
            in Inr \<lparr>wage = h, wk = wk, rs = rs, hd_hours = hd,
                     weekdayPay = weekdayPay, restPay = restPay, holidayPay = holidayPay,
                     total = total,
                     shownWeekday = mathRound weekdayPay, shownRest = mathRound restPay,
                     shownHoliday = mathRound holidayPay, shownTotal = mathRound total,
                     warnOver4 = jsGt wk (Num 4)\<rparr>))"

section \<open>Article index\<close>

text \<open>
  An article record of \<open>articles.json\<close>. The table itself is loaded from a file at start-up
  and is a parameter of the functions below. The \<open>keywords\<close> field may be absent or not
  an array, which is \<open>None\<close>.
\<close>

record article =
  no :: int
  title :: jsstring
  summary :: jsstring
  keywordList :: "jsstring list option"

text \<open>\<open>findArticleByNumber\<close>, called with a number: the first record with that number.\<close>

definition findArticleByNumber :: "article list \<Rightarrow> int \<Rightarrow> article option" where
  "findArticleByNumber articles n = find (\<lambda>a. no a = n) articles"

text \<open>
  The inner loop of the keyword search: one point for every keyword whose normal form is
  not empty and occurs in the normalized query.
\<close>

definition countKeyword :: "(jsstring \<Rightarrow> jsstring) \<Rightarrow> jsstring \<Rightarrow> nat \<Rightarrow> jsstring \<Rightarrow> nat" where
  "countKeyword lower normalized score kwRaw =
     (let kw = normalizeBy lower kwRaw in
      if kw = [] then score
      else if includesStr normalized kw then score + 1 else score)"

definition keywordScore :: "(jsstring \<Rightarrow> jsstring) \<Rightarrow> jsstring \<Rightarrow> jsstring list option \<Rightarrow> nat" where
  "keywordScore lower normalized kws =
     (case kws of None \<Rightarrow> 0 | Some ks \<Rightarrow> foldl (countKeyword lower normalized) 0 ks)"

text \<open>The outer loop keeps the pair \<open>(best, bestScore)\<close> and replaces it on a strictly higher score.\<close>

definition pickBetter :: "('a \<Rightarrow> nat) \<Rightarrow> 'a option \<times> nat \<Rightarrow> 'a \<Rightarrow> 'a option \<times> nat" where
  "pickBetter sc st x =
     (let score = sc x in if score > snd st then (Some x, score) else st)"

definition findArticleByKeyword ::
  "(jsstring \<Rightarrow> jsstring) \<Rightarrow> article list \<Rightarrow> jsstring \<Rightarrow> article option" where
  "findArticleByKeyword lower articles text =
     (if text = [] then None
      else
        (let normalized = normalizeBy lower text;
             st = foldl (pickBetter (\<lambda>art. keywordScore lower normalized (keywordList art)))
                    (None, 0) articles
         in if fst st = None \<or> snd st = 0 then None else fst st))"

section \<open>FAQ index\<close>

record faq =
  question :: jsstring
  answer :: jsstring
  faqKeywords :: "jsstring list option"

text \<open>
  Modelled from the spec: \<open>findBestFaq\<close> of \<open>faqs.js\<close>, which is imported by the program
  but is not among the source files. The spec gives it the scoring algorithm of the
  article keyword lookup (count of normalized keywords found in the normalized text),
  the same tie-break and the same zero-score rule, applied to the FAQ records.
\<close>

definition findBestFaq :: "(jsstring \<Rightarrow> jsstring) \<Rightarrow> faq list \<Rightarrow> jsstring \<Rightarrow> faq option" where
  "findBestFaq lower faqs text =
     (if text = [] then None
      else
        (let normalized = normalizeBy lower text;
             st = foldl (pickBetter (\<lambda>f. keywordScore lower normalized (faqKeywords f)))
                    (None, 0) faqs
         in if fst st = None \<or> snd st = 0 then None else fst st))"

text \<open>
  The score as the specification words it: the number of keywords whose normal form occurs
  in the normalized query, the empty word included (it occurs in every string).
\<close>

definition claimedScore :: "(jsstring \<Rightarrow> jsstring) \<Rightarrow> jsstring \<Rightarrow> jsstring list \<Rightarrow> nat" where
  "claimedScore lower normalized ks =
     length (filter (\<lambda>k. includesStr normalized (normalizeBy lower k)) ks)"

section \<open>Article references\<close>

text \<open>The characters of the patterns: the two names of the statute, the ordinal prefix and the word for article.\<close>

definition lawFullName :: jsstring where
  "lawFullName = [0x52DE, 0x52D5, 0x57FA, 0x6E96, 0x6CD5]"

definition lawShortName :: jsstring where
  "lawShortName = [0x52DE, 0x57FA, 0x6CD5]"

definition chDi :: nat where
  "chDi = 0x7B2C"

definition chTiao :: nat where
  "chTiao = 0x689D"

text \<open>The class of an ASCII or a full-width digit.\<close>

definition isWideDigit :: "nat \<Rightarrow> bool" where
  "isWideDigit c \<longleftrightarrow> 0xFF10 \<le> c \<and> c \<le> 0xFF19"

definition isAnyDigit :: "nat \<Rightarrow> bool" where
  "isAnyDigit c \<longleftrightarrow> isDigit c \<or> isWideDigit c"

text \<open>The replacement of full-width digits: the code unit minus 65248.\<close>

definition halfWidth :: "nat \<Rightarrow> nat" where
  "halfWidth c = (if isWideDigit c then c - 65248 else c)"

text \<open>
  \<open>parseInt(s, 10)\<close>: white space is skipped, a sign is read, and the leading digits give the
  value; \<open>None\<close> is \<open>NaN\<close>.
\<close>

definition parseIntDigits :: "jsstring \<Rightarrow> int option" where
  "parseIntDigits s =
     (let ds = takeWhile isDigit s in if ds = [] then None else Some (int (digitsValue ds)))"

definition parseInt :: "jsstring \<Rightarrow> int option" where
  "parseInt s =
     (case dropWhile isSpace s of
        [] \<Rightarrow> None
      | c # r \<Rightarrow>
          if c = 0x2D then map_option uminus (parseIntDigits r)
          else if c = 0x2B then parseIntDigits r
          else parseIntDigits (c # r))"

text \<open>
  A match of \<open>NAME DI? ([0-9 or full-width]{1,3}) TIAO?\<close> at the start of the string, giving the
  captured group. The group is greedy and what follows it is optional, so it is the digit
  run cut at three; when the ordinal prefix is present but no digit follows it, leaving
  the prefix out does not help, the next unit being the prefix and not a digit.
  \<open>withDi\<close> tells whether the pattern has the optional prefix.
\<close>

definition matchNamed :: "jsstring \<Rightarrow> bool \<Rightarrow> jsstring \<Rightarrow> jsstring option" where
  "matchNamed name withDi s =
     (if prefix name s then
        (let r = drop (length name) s;
             r' = (if withDi \<and> r \<noteq> [] \<and> hd r = chDi then tl r else r);
             g = take 3 (takeWhile isAnyDigit r')
         in if g = [] then None else Some g)
      else None)"

text \<open>
  A match of \<open>DI ([0-9 or full-width]{1,3}) TIAO\<close> at the start of the string: the word for
  article must follow the group, so the whole digit run is the group and has at most three
  units (a shorter group would be followed by a digit).
\<close>

definition matchBare :: "jsstring \<Rightarrow> jsstring option" where
  "matchBare s =
     (case s of
        [] \<Rightarrow> None
      | c # r \<Rightarrow>
          if c = chDi then
            (let g = takeWhile isAnyDigit r; r' = dropWhile isAnyDigit r in
             if g \<noteq> [] \<and> length g \<le> 3 \<and> r' \<noteq> [] \<and> hd r' = chTiao then Some g else None)
          else None)"

text \<open>\<open>s.match(re)\<close> without the global flag: the match at the leftmost start position.\<close>

fun searchFrom :: "(jsstring \<Rightarrow> 'a option) \<Rightarrow> jsstring \<Rightarrow> 'a option" where
  "searchFrom m [] = m []"
| "searchFrom m (c # s) = (case m (c # s) of Some r \<Rightarrow> Some r | None \<Rightarrow> searchFrom m s)"

definition patterns :: "(jsstring \<Rightarrow> jsstring option) list" where
  "patterns =
     [matchNamed lawFullName True, matchNamed lawShortName True,
      matchNamed lawFullName False, matchNamed lawShortName False, matchBare]"

text \<open>The loop over the patterns: the first one whose group parses to a number decides.\<close>

fun tryPatterns :: "(jsstring \<Rightarrow> jsstring option) list \<Rightarrow> jsstring \<Rightarrow> int option" where
  "tryPatterns [] s = None"
| "tryPatterns (re # res) s =
     (case searchFrom re s of
        None \<Rightarrow> tryPatterns res s
      | Some g \<Rightarrow>
          if g = [] then tryPatterns res s
          else (case parseInt (map halfWidth g) of
                  None \<Rightarrow> tryPatterns res s
                | Some n \<Rightarrow> Some n))"

definition extractArticleNumber :: "jsstring \<Rightarrow> int option" where
  "extractArticleNumber text =
     (if text = [] then None else tryPatterns patterns (stripSpaces text))"

text \<open>
  A match of \<open>DI \s* ([0-9]{1,3}) \s* TIAO\<close> at the start of the string, giving the group and
  the text after the match. Each repetition is greedy and is followed by a unit outside
  its class, so giving units back never helps.
\<close>

definition matchLaw :: "jsstring \<Rightarrow> (jsstring \<times> jsstring) option" where
  "matchLaw s =
     (case s of
        [] \<Rightarrow> None
      | c # r \<Rightarrow>
          if c = chDi then
            (let r1 = dropWhile isSpace r;
                 g = takeWhile isDigit r1;
                 r2 = dropWhile isSpace (dropWhile isDigit r1)
             in if g \<noteq> [] \<and> length g \<le> 3 \<and> r2 \<noteq> [] \<and> hd r2 = chTiao then Some (g, tl r2)
                else None)
          else None)"

text \<open>\<open>Set.prototype.add\<close> on a set kept in insertion order.\<close>

definition setAdd :: "int \<Rightarrow> int list \<Rightarrow> int list" where
  "setAdd n nums = (if n \<in> set nums then nums else nums @ [n])"

definition addLawNumber :: "jsstring \<Rightarrow> int list \<Rightarrow> int list" where
  "addLawNumber g nums =
     (case parseInt g of
        None \<Rightarrow> nums
      | Some n \<Rightarrow> if n > 0 \<and> n < 1000 then setAdd n nums else nums)"

text \<open>
  The \<open>while ((m = re.exec(text)) !== null)\<close> loop of the global pattern: after a match the
  search goes on behind it, otherwise at the next start position.
\<close>

function scanLaw :: "int list \<Rightarrow> jsstring \<Rightarrow> int list" where
  "scanLaw nums [] = nums"
| "scanLaw nums (c # s) =
     (case matchLaw (c # s) of
        None \<Rightarrow> scanLaw nums s
      | Some (g, behind) \<Rightarrow> scanLaw (addLawNumber g nums) behind)"
  by pat_completeness auto
termination
proof (relation "measure (\<lambda>(nums, s). length s)")
  fix nums :: "int list" and c :: nat and s x2 g behind
  assume m: "matchLaw (c # s) = Some x2" and x2: "(g, behind) = x2"
  define r2 where "r2 = dropWhile isSpace (dropWhile isDigit (dropWhile isSpace s))"
  from m x2 have "r2 \<noteq> []" and "behind = tl r2"
    by (auto simp: matchLaw_def r2_def Let_def split: if_splits)
  moreover have "length r2 \<le> length s"
    unfolding r2_def
    by (meson length_dropWhile_le order_trans)
  ultimately have "length behind < length (c # s)"
    by (cases r2) auto
  then show "((addLawNumber g nums, behind), (nums, c # s)) \<in> measure (\<lambda>(nums, s). length s)"
    by simp
qed auto

definition extractLawNumbers :: "jsstring \<Rightarrow> int list" where
  "extractLawNumbers text = scanLaw [] text"

section \<open>Citation links\<close>

text \<open>The decimal digits of a number, as template interpolation prints it.\<close>

function decimal :: "nat \<Rightarrow> jsstring" where
  "decimal n = (if n < 10 then [0x30 + n] else decimal (n div 10) @ [0x30 + n mod 10])"
  by pat_completeness auto
termination
  by (relation "measure (\<lambda>n. n)") auto

definition lawUrl :: "int \<Rightarrow> jsstring" where
  "lawUrl n =
     (if n = 0 \<or> n \<le> 0 then asc ''https://law.moj.gov.tw/LawClass/LawAll.aspx?pcode=N0030001''
      else asc ''https://law.moj.gov.tw/LawClass/LawSingle.aspx?pcode=N0030001&flno=''
           @ decimal (nat n))"

text \<open>One line of the list: a bullet, the phrase for the article with its number, and the link.\<close>

definition linkLine :: "int \<Rightarrow> jsstring" where
  "linkLine n =
     [0x2022, 0x20, 0x7B2C, 0x20] @ decimal (nat n) @ [0x20, 0x689D, 0xFF1A] @ lawUrl n"

fun joinLines :: "jsstring list \<Rightarrow> jsstring" where
  "joinLines [] = []"
| "joinLines [l] = l"
| "joinLines (l # ls) = l @ [0x0A] @ joinLines ls"

text \<open>
  \<open>appendLawLinks\<close>: the numbers found in the answer, in ascending order, are appended as
  a list under a heading; an answer without article phrases is returned as it is.
\<close>

definition appendLawLinks :: "jsstring \<Rightarrow> jsstring" where
  "appendLawLinks reply =
     (let nums = extractLawNumbers reply in
      if nums = [] then reply
      else reply
           @ [0x0A, 0x0A, 0xD83D, 0xDD17, 0x20, 0x53C3, 0x8003, 0x689D, 0x6587, 0xFF1A, 0x0A]
           @ joinLines (map linkLine (sort nums)))"

section \<open>External answer gateway\<close>

text \<open>
  The remote service is outside the program. A request carries what the program chooses
  per attempt chain: the system prompt (by mode), the question, the token budget, the
  time-out and the log label. A call either returns a completion, whose text may be absent,
  or fails with an error of which the program reads the message and the status.
\<close>

datatype ai_mode = Concise | Detailed

record request =
  systemMode :: ai_mode
  question :: jsstring
  maxTokens :: nat
  timeoutMs :: nat
  logLabel :: jsstring

record api_error =
  errMessage :: jsstring
  errStatus :: "nat option"

datatype api_reply = Completion "jsstring option" | Failure api_error

text \<open>
  The surroundings of one logical request: \<open>api k rq\<close> is the outcome of the call number
  \<open>k\<close> when it is made with request \<open>rq\<close>, and \<open>jitter j\<close> is the value of
  \<open>Math.floor(Math.random() * 200)\<close> at wait number \<open>j\<close>.
\<close>

record surroundings =
  api :: "nat \<Rightarrow> request \<Rightarrow> api_reply"
  jitter :: "nat \<Rightarrow> nat"

text \<open>What the program does towards the outside during a request, in order.\<close>

datatype io_event = Call request | Wait nat

definition retriable :: "api_error \<Rightarrow> bool" where
  "retriable err =
     (let msg = errMessage err in
      includesStr msg (asc ''Request timed out'')
      \<or> includesStr msg (asc ''APIConnectionTimeoutError'')
      \<or> includesStr msg (asc ''ETIMEDOUT'')
      \<or> includesStr msg (asc ''ECONNRESET'')
      \<or> includesStr msg (asc ''ENOTFOUND'')
      \<or> (case errStatus err of None \<Rightarrow> False | Some st \<Rightarrow> st \<ge> 500 \<and> st < 600))"

text \<open>
  The loop of \<open>openaiChatWithRetry\<close>, entered with the current \<open>attempt\<close>, the number
  \<open>k\<close> of the next call and the number \<open>j\<close> of the next wait. The result is the
  completion text or the error thrown, with the events of the chain.
\<close>

function chatLoop ::
  "surroundings \<Rightarrow> request \<Rightarrow> nat \<Rightarrow> nat \<Rightarrow> nat \<Rightarrow> nat
     \<Rightarrow> (api_error + jsstring option) \<times> io_event list" where
  "chatLoop w rq retries attempt k j =
     (case api w k rq of
        Completion content \<Rightarrow> (Inr content, [Call rq])
      | Failure err \<Rightarrow>
          if \<not> retriable err \<or> attempt \<ge> retries then (Inl err, [Call rq])
          else
            (let delay = 1000 * 2 ^ attempt + jitter w j;
                 (r, tr) = chatLoop w rq retries (attempt + 1) (k + 1) (j + 1)
             in (r, Call rq # Wait delay # tr)))"
  by pat_completeness auto
termination
  by (relation "measure (\<lambda>(w, rq, retries, attempt, k, j). retries - attempt)") auto

definition openaiChatWithRetry ::
  "surroundings \<Rightarrow> request \<Rightarrow> nat \<Rightarrow> nat \<Rightarrow> nat
     \<Rightarrow> (api_error + jsstring option) \<times> io_event list" where
  "openaiChatWithRetry w rq retries k j = chatLoop w rq retries 0 k j"

fun isCall :: "io_event \<Rightarrow> bool" where
  "isCall (Call rq) = True"
| "isCall (Wait d) = False"

definition calls :: "io_event list \<Rightarrow> nat" where
  "calls tr = length (filter isCall tr)"

definition waits :: "io_event list \<Rightarrow> nat" where
  "waits tr = length (filter (\<lambda>e. \<not> isCall e) tr)"

text \<open>The three configurations of \<open>askOpenAIForLaborHelp\<close>.\<close>

definition firstTry :: "ai_mode \<Rightarrow> jsstring \<Rightarrow> request" where
  "firstTry mode userText =
     \<lparr>systemMode = mode, question = userText,
      maxTokens = (if mode = Detailed then 900 else 360),
      timeoutMs = (if mode = Detailed then 12000 else 10000),
      logLabel = (if mode = Detailed then asc ''detailed#1'' else asc ''concise#1'')\<rparr>"

definition detailedRetry :: "jsstring \<Rightarrow> request" where
  "detailedRetry userText =
     \<lparr>systemMode = Detailed, question = userText, maxTokens = 600, timeoutMs = 10000,
      logLabel = asc ''detailed#2''\<rparr>"

definition conciseFallback :: "jsstring \<Rightarrow> request" where
  "conciseFallback userText =
     \<lparr>systemMode = Concise, question = userText, maxTokens = 320, timeoutMs = 9000,
      logLabel = asc ''concise#fallback''\<rparr>"

text \<open>\<open>choice ? appendLawLinks(choice.trim()) : null\<close>\<close>

definition answerOf :: "jsstring option \<Rightarrow> jsstring option" where
  "answerOf content =
     (case content of
        None \<Rightarrow> None
      | Some choice \<Rightarrow> if choice = [] then None else Some (appendLawLinks (trim choice)))"

text \<open>The last step of the ladder, entered after the events \<open>tr\<close>.\<close>

definition lastResort ::
  "surroundings \<Rightarrow> jsstring \<Rightarrow> nat \<Rightarrow> nat \<Rightarrow> io_event list
     \<Rightarrow> jsstring option \<times> io_event list" where
  "lastResort w userText k j tr =
     (let (r3, t3) =
            openaiChatWithRetry w (conciseFallback userText) 1 (k + calls tr) (j + waits tr)
      in case r3 of
           Inr content \<Rightarrow> (answerOf content, tr @ t3)
         | Inl err3 \<Rightarrow> (None, tr @ t3))"

text \<open>
  \<open>askOpenAIForLaborHelp\<close>; \<open>client\<close> tells whether the service client exists. The result
  is the answer or none (\<open>null\<close>), with the events of the whole request.
\<close>

definition askOpenAIForLaborHelp ::
  "surroundings \<Rightarrow> bool \<Rightarrow> jsstring \<Rightarrow> ai_mode \<Rightarrow> nat \<Rightarrow> nat
     \<Rightarrow> jsstring option \<times> io_event list" where
  "askOpenAIForLaborHelp w client userText mode k j =
     (if \<not> client then (None, [])
      else
        (let (r1, t1) = openaiChatWithRetry w (firstTry mode userText) 1 k j in
         case r1 of
           Inr content \<Rightarrow> (answerOf content, t1)
         | Inl err1 \<Rightarrow>
             if mode = Detailed then
               (let (r2, t2) =
                      openaiChatWithRetry w (detailedRetry userText) 1
                        (k + calls t1) (j + waits t1)
                in case r2 of
                     Inr content \<Rightarrow> (answerOf content, t1 @ t2)
                   | Inl err2 \<Rightarrow> lastResort w userText k j (t1 @ t2))
             else lastResort w userText k j t1))"

section \<open>Intent resolver\<close>

text \<open>
  An inbound webhook event, as far as the handler reads it: the reply token, the kind of
  event (for a message its kind, for a text message its text, which may be absent) and the
  identifiers of the source.
\<close>

record line_source =
  userId :: "jsstring option"
  groupId :: "jsstring option"
  roomId :: "jsstring option"

datatype line_message = TextMessage "jsstring option" | OtherMessage

datatype event_type = Follow | Message line_message | OtherEvent

record line_event =
  replyToken :: jsstring
  evType :: event_type
  evSource :: "line_source option"

text \<open>
  What the handler sends. A text body is named by the template it is built from, with the
  values interpolated into it; the wording of the templates and the quick-reply buttons
  attached to a message are presentation and are not reproduced. \<open>replyText\<close> and
  \<open>pushText\<close> pass the rendered body through \<open>ensureLineLength\<close>.
\<close>

datatype reply_body =
    Welcome
  | AiNeedQuestion
  | AiThinking
  | AiNoClient jsstring
  | AiAnswer bool jsstring
  | AiFailed jsstring
  | OtHelp
  | OtInvalid
  | OtResult ot_result
  | OvertimeExamples
  | LeaveExamples
  | ResignExamples
  | ArticleReply int article
  | ArticleByAi int jsstring
  | ArticleUnknown int
  | FaqReply faq
  | KeywordArticle article
  | FallbackAi jsstring
  | FallbackGuide jsstring

datatype flex_kind = FunctionMenu | OtFlex

datatype action =
    ReplyText jsstring reply_body
  | PushText jsstring reply_body
  | ReplyFlex jsstring flex_kind

text \<open>
  What the handler has at hand: the two tables, the service client, the service, and the
  lower-case mapping of the runtime that the keyword lookups apply.
\<close>

record bot =
  botArticles :: "article list"
  botFaqs :: "faq list"
  hasClient :: bool
  outside :: surroundings
  caseMap :: "jsstring \<Rightarrow> jsstring"

text \<open>A string is truthy when it is present and not empty.\<close>

fun truthyStr :: "jsstring option \<Rightarrow> bool" where
  "truthyStr None = False"
| "truthyStr (Some s) = (s \<noteq> [])"

definition getSourceId :: "line_event \<Rightarrow> jsstring option" where
  "getSourceId ev =
     (case evSource ev of
        None \<Rightarrow> None
      | Some s \<Rightarrow>
          if truthyStr (userId s) then userId s
          else if truthyStr (groupId s) then groupId s
          else if truthyStr (roomId s) then roomId s
          else None)"

text \<open>The reply token of the platform's verification event: 32 zeros.\<close>

definition verifyToken :: jsstring where
  "verifyToken = replicate 32 0x30"

text \<open>The answer of the gateway, for a request of its own.\<close>

definition askAi :: "bot \<Rightarrow> jsstring \<Rightarrow> ai_mode \<Rightarrow> jsstring option" where
  "askAi b q mode = fst (askOpenAIForLaborHelp (outside b) (hasClient b) q mode 0 0)"

text \<open>
  The branch of the AI prefix, entered when the trimmed text starts with \<open>ai/\<close> or \<open>ai+\<close>
  in any letter case: without a question one reply asks for one; otherwise an
  acknowledgement is replied first and the body follows, pushed to the source when it is
  known and replied otherwise.
\<close>

definition aiBranch :: "bot \<Rightarrow> line_event \<Rightarrow> jsstring \<Rightarrow> action list" where
  "aiBranch b ev trimmed =
     (let raw = trim (drop 3 trimmed);
          isDetailed = (prefix [0x8A73, 0x7D30] raw \<or> prefix [0x9032, 0x968E] raw);
          aiQuestion = (if isDetailed then trim (drop 2 raw) else raw)
      in if aiQuestion = [] then [ReplyText (replyToken ev) AiNeedQuestion]
         else
           (let body =
                  (if \<not> hasClient b then AiNoClient aiQuestion
                   else
                     (let aiAnswer = askAi b aiQuestion (if isDetailed then Detailed else Concise)
                      in if truthyStr aiAnswer then AiAnswer isDetailed (the aiAnswer)
                         else AiFailed aiQuestion))
            in [ReplyText (replyToken ev) AiThinking,
                (case getSourceId ev of
                   Some to \<Rightarrow> PushText to body
                 | None \<Rightarrow> ReplyText (replyToken ev) body)]))"

text \<open>The calculator commands; \<open>None\<close> when none of the four tests holds.\<close>

definition calculatorBranch :: "line_event \<Rightarrow> jsstring \<Rightarrow> jsstring \<Rightarrow> action list option" where
  "calculatorBranch ev userText normalized =
     (if normalized = otCommand then Some [ReplyFlex (replyToken ev) OtFlex]
      else if prefix otCommand normalized \<and> includesStr normalized [0x8AAA, 0x660E]
        then Some [ReplyText (replyToken ev) OtHelp]
      else if prefix (otCommand @ [0x20]) normalized then
        (case computeOtPay (parseOtArgs userText) of
           Inl err \<Rightarrow> Some [ReplyText (replyToken ev) OtInvalid]
         | Inr res \<Rightarrow> Some [ReplyText (replyToken ev) (OtResult res)])
      else if normalized = [0x518D, 0x8A66, 0x4E00, 0x7B46]
        then Some [ReplyFlex (replyToken ev) OtFlex]
      else None)"

text \<open>The menu and the category commands, compared with the normalized text.\<close>

definition commandBranch :: "line_event \<Rightarrow> jsstring \<Rightarrow> action list option" where
  "commandBranch ev normalized =
     (if normalized = [0x529F, 0x80FD] \<or> normalized = asc ''help''
         \<or> normalized = [0x4F7F, 0x7528, 0x8AAA, 0x660E]
        then Some [ReplyFlex (replyToken ev) FunctionMenu]
      else if normalized = [0x52A0, 0x73ED, 0x76F8, 0x95DC]
        then Some [ReplyText (replyToken ev) OvertimeExamples]
      else if normalized = [0x7279, 0x4F11, 0x76F8, 0x95DC]
           \<or> normalized = [0x4F11, 0x5047, 0x76F8, 0x95DC]
        then Some [ReplyText (replyToken ev) LeaveExamples]
      else if normalized = [0x96E2, 0x8077, 0x76F8, 0x95DC]
           \<or> normalized = [0x8CC7, 0x9063, 0x76F8, 0x95DC]
           \<or> normalized = [0x96E2, 0x8077, 0x8CC7, 0x9063, 0x76F8, 0x95DC]
        then Some [ReplyText (replyToken ev) ResignExamples]
      else None)"

text \<open>
  The question put to the gateway for an article without a stored record: a fixed request
  for a short plain explanation of the article, with its number interpolated.
\<close>

definition articlePrompt :: "int \<Rightarrow> jsstring" where
  "articlePrompt n =
     [
      0x8ACB, 0x7528, 0x7C21, 0x77ED, 0x767D, 0x8A71, 0x8AAA, 0x660E, 0x53F0, 0x7063, 0x300A,
      0x52DE, 0x52D5, 0x57FA, 0x6E96, 0x6CD5, 0x300B, 0x7B2C, 0x20]
     @ decimal (nat n) @
     [
      0x20, 0x689D, 0x7684, 0x5927, 0x610F, 0x8207, 0x4FDD, 0x8B77, 0x91CD, 0x9EDE, 0xFF0C,
      0x7D04, 0x20, 0x33, 0x7E, 0x35, 0x20, 0x53E5, 0x5373, 0x53EF, 0x3002]"

text \<open>
  The article lookup by number, taken when a number other than 0 is extracted: the stored
  record, or else the gateway's explanation, or else a static message.
\<close>

definition articleBranch :: "bot \<Rightarrow> line_event \<Rightarrow> jsstring \<Rightarrow> action list option" where
  "articleBranch b ev userText =
     (case extractArticleNumber userText of
        None \<Rightarrow> None
      | Some articleNo \<Rightarrow>
          if articleNo = 0 then None
          else
            (case findArticleByNumber (botArticles b) articleNo of
               Some articleData \<Rightarrow> Some [ReplyText (replyToken ev) (ArticleReply articleNo articleData)]
             | None \<Rightarrow>
                 (let aiAnswer = askAi b (articlePrompt articleNo) Concise
                  in if truthyStr aiAnswer
                       then Some [ReplyText (replyToken ev) (ArticleByAi articleNo (the aiAnswer))]
                     else Some [ReplyText (replyToken ev) (ArticleUnknown articleNo)])))"

text \<open>The FAQ match, then the keyword match over the articles, then the gateway.\<close>

definition lookupBranch :: "bot \<Rightarrow> line_event \<Rightarrow> jsstring \<Rightarrow> action list" where
  "lookupBranch b ev userText =
     (case findBestFaq (caseMap b) (botFaqs b) userText of
        Some matchedFaq \<Rightarrow> [ReplyText (replyToken ev) (FaqReply matchedFaq)]
      | None \<Rightarrow>
          (case findArticleByKeyword (caseMap b) (botArticles b) userText of
             Some matchedArticle \<Rightarrow> [ReplyText (replyToken ev) (KeywordArticle matchedArticle)]
           | None \<Rightarrow>
               (let aiAnswer = askAi b userText Concise
                in if truthyStr aiAnswer
                     then [ReplyText (replyToken ev) (FallbackAi (the aiAnswer))]
                   else [ReplyText (replyToken ev) (FallbackGuide userText)])))"

text \<open>The handler of one text message, after the event checks.\<close>

definition handleText :: "bot \<Rightarrow> line_event \<Rightarrow> jsstring \<Rightarrow> action list" where
  "handleText b ev userText =
     (let normalized = normalize userText;
          trimmed = trim userText;
          lowerTrimmed = toLowerCase trimmed
      in if prefix (asc ''ai/'') lowerTrimmed \<or> prefix (asc ''ai+'') lowerTrimmed
           then aiBranch b ev trimmed
         else
           (case calculatorBranch ev userText normalized of
              Some acts \<Rightarrow> acts
            | None \<Rightarrow>
                (case commandBranch ev normalized of
                   Some acts \<Rightarrow> acts
                 | None \<Rightarrow>
                     (case articleBranch b ev userText of
                        Some acts \<Rightarrow> acts
                      | None \<Rightarrow> lookupBranch b ev userText))))"

text \<open>The handler of one event of the webhook batch.\<close>

definition handleEvent :: "bot \<Rightarrow> line_event \<Rightarrow> action list" where
  "handleEvent b ev =
     (if replyToken ev = verifyToken then []
      else
        (case evType ev of
           Follow \<Rightarrow> [ReplyText (replyToken ev) Welcome]
         | Message (TextMessage t) \<Rightarrow> handleText b ev (case t of None \<Rightarrow> [] | Some x \<Rightarrow> x)
         | Message OtherMessage \<Rightarrow> []
         | OtherEvent \<Rightarrow> []))"

section \<open>Auxiliary notions of the statements\<close>

text \<open>A value that is a number and not negative.\<close>

fun nonneg :: "jsval \<Rightarrow> bool" where
  "nonneg (Num r) = (0 \<le> r)"
| "nonneg _ = False"

text \<open>The invariant of the parameter record while \<open>parseOtArgs\<close> runs over the tokens.\<close>

definition parsedOk :: "ot_params \<Rightarrow> bool" where
  "parsedOk p \<longleftrightarrow>
     (hourly p = NaN \<or> nonneg (hourly p)) \<and> nonneg (weekday p) \<and> nonneg (rest p)
     \<and> nonneg (holiday p) \<and> nonneg (weekdayRate1 p) \<and> nonneg (weekdayRate2 p)
     \<and> nonneg (restRate p) \<and> nonneg (holidayRate p)"

text \<open>
  The last example line of \<open>buildOtHelpText\<close>: the command word, then wage \<open>=183\<close>,
  weekday hours \<open>=3\<close>, and the two weekday rate overrides \<open>=1.34\<close> and \<open>=1.67\<close> under
  their Chinese alias names.
\<close>

definition helpExample :: jsstring where
  "helpExample =
     otCommand @ asc '' '' @ [0x6642, 0x85AA] @ asc ''=183 '' @ [0x5E73, 0x65E5] @ asc ''=3 ''
     @ [0x5E73, 0x65E5, 0x500D, 0x6578] @ asc ''1=1.34 ''
     @ [0x5E73, 0x65E5, 0x500D, 0x6578] @ asc ''2=1.67''"

text \<open>
  Position \<open>i\<close> holds the first record of the best score: the score there is positive, no
  record has a higher one, and every earlier record has a strictly lower one.
\<close>

definition firstBest :: "('a \<Rightarrow> nat) \<Rightarrow> 'a list \<Rightarrow> nat \<Rightarrow> bool" where
  "firstBest sc xs i \<longleftrightarrow>
     i < length xs \<and> 0 < sc (xs ! i) \<and> (\<forall>j < length xs. sc (xs ! j) \<le> sc (xs ! i))
     \<and> (\<forall>j < i. sc (xs ! j) < sc (xs ! i))"

text \<open>Three sample records; the second and the third tie on the query \<open>Overtime Pay\<close>.\<close>

definition sampleArticles :: "article list" where
  "sampleArticles =
     [\<lparr>no = 24, title = asc ''A'', summary = [], keywordList = Some [asc ''overtime'']\<rparr>,
      \<lparr>no = 32, title = asc ''B'', summary = [], keywordList = Some [asc ''Over Time'', asc ''pay'']\<rparr>,
      \<lparr>no = 38, title = asc ''C'', summary = [], keywordList = Some [asc ''pay'', asc ''overtime'', asc ''leave'']\<rparr>]"

text \<open>
  A lower-case mapping that folds the full-width capital letters as well, and a record
  whose keyword is the full-width word \<open>OT\<close>.
\<close>

definition foldWide :: "jsstring \<Rightarrow> jsstring" where
  "foldWide s = map (\<lambda>c. if (0x41 \<le> c \<and> c \<le> 0x5A) \<or> (0xFF21 \<le> c \<and> c \<le> 0xFF3A) then c + 32 else c) s"

definition wideArticles :: "article list" where
  "wideArticles =
     [\<lparr>no = 24, title = asc ''A'', summary = [], keywordList = Some [[0xFF2F, 0xFF34]]\<rparr>]"

text \<open>
  The text holds an article phrase: a name of the statute followed, directly or after the
  ordinal prefix, by a digit; or the ordinal prefix, one to three digits and the word for
  article. Digits are ASCII or full-width.
\<close>

definition hasArticlePhrase :: "jsstring \<Rightarrow> bool" where
  "hasArticlePhrase s \<longleftrightarrow>
     (\<exists>d. isAnyDigit d \<and>
        (includesStr s (lawFullName @ [d]) \<or> includesStr s (lawFullName @ [chDi, d])
         \<or> includesStr s (lawShortName @ [d]) \<or> includesStr s (lawShortName @ [chDi, d])))
     \<or> (\<exists>g. g \<noteq> [] \<and> length g \<le> 3 \<and> list_all isAnyDigit g
            \<and> includesStr s (chDi # g @ [chTiao]))"

text \<open>A captured group: one to three digits.\<close>

definition goodGroup :: "jsstring \<Rightarrow> bool" where
  "goodGroup g \<longleftrightarrow> g \<noteq> [] \<and> length g \<le> 3 \<and> list_all isAnyDigit g"

text \<open>
  The number \<open>n\<close> occurs in the text as a bare article phrase: the ordinal prefix, optional
  white space, one to three ASCII digits that read \<open>n\<close>, optional white space and the word
  for article. \<open>matchAt\<close> says the same of a match of the pattern at the start of a text.
\<close>

definition lawOccurrence :: "jsstring \<Rightarrow> int \<Rightarrow> bool" where
  "lawOccurrence s n \<longleftrightarrow>
     (\<exists>ws1 g ws2. list_all isSpace ws1 \<and> list_all isSpace ws2
        \<and> g \<noteq> [] \<and> length g \<le> 3 \<and> list_all isDigit g
        \<and> includesStr s (chDi # ws1 @ g @ ws2 @ [chTiao]) \<and> n = int (digitsValue g))"

definition matchAt :: "jsstring \<Rightarrow> int \<Rightarrow> bool" where
  "matchAt t n \<longleftrightarrow> (\<exists>g behind. matchLaw t = Some (g, behind) \<and> n = int (digitsValue g))"

text \<open>
  The events of a chain that retried \<open>m\<close> times, entered at attempt \<open>a\<close> and wait number
  \<open>j\<close>: each failed call is followed by its wait, the last call ends the chain.
\<close>

definition backoffTrace :: "surroundings \<Rightarrow> request \<Rightarrow> nat \<Rightarrow> nat \<Rightarrow> nat \<Rightarrow> io_event list" where
  "backoffTrace w rq a j m =
     concat (map (\<lambda>i. [Call rq, Wait (1000 * 2 ^ (a + i) + jitter w (j + i))]) [0..<m])
     @ [Call rq]"

text \<open>A chain is exhausted when it ends with the error thrown.\<close>

definition exhausted :: "(api_error + jsstring option) \<times> io_event list \<Rightarrow> bool" where
  "exhausted c = isl (fst c)"

text \<open>Call number \<open>k\<close> with request \<open>rq\<close> fails with an error the program classes as transient.\<close>

definition transientAt :: "surroundings \<Rightarrow> request \<Rightarrow> nat \<Rightarrow> bool" where
  "transientAt w rq k = (case api w k rq of Failure e \<Rightarrow> retriable e | Completion c \<Rightarrow> False)"

text \<open>
  The three chains of a detailed request that starts at call number \<open>k\<close> and wait number
  \<open>j\<close>, each entered where the one before it stopped.
\<close>

definition detailedChain1 ::
  "surroundings \<Rightarrow> jsstring \<Rightarrow> nat \<Rightarrow> nat \<Rightarrow> (api_error + jsstring option) \<times> io_event list" where
  "detailedChain1 w q k j = openaiChatWithRetry w (firstTry Detailed q) 1 k j"

definition detailedChain2 ::
  "surroundings \<Rightarrow> jsstring \<Rightarrow> nat \<Rightarrow> nat \<Rightarrow> (api_error + jsstring option) \<times> io_event list" where
  "detailedChain2 w q k j =
     openaiChatWithRetry w (detailedRetry q) 1
       (k + calls (snd (detailedChain1 w q k j))) (j + waits (snd (detailedChain1 w q k j)))"

definition detailedChain3 ::
  "surroundings \<Rightarrow> jsstring \<Rightarrow> nat \<Rightarrow> nat \<Rightarrow> (api_error + jsstring option) \<times> io_event list" where
  "detailedChain3 w q k j =
     openaiChatWithRetry w (conciseFallback q) 1
       (k + calls (snd (detailedChain1 w q k j) @ snd (detailedChain2 w q k j)))
       (j + waits (snd (detailedChain1 w q k j) @ snd (detailedChain2 w q k j)))"

text \<open>Two sample surroundings: every call fails with the same error.\<close>

definition alwaysFails :: "api_error \<Rightarrow> (nat \<Rightarrow> nat) \<Rightarrow> surroundings" where
  "alwaysFails err jit = \<lparr>api = (\<lambda>k rq. Failure err), jitter = jit\<rparr>"

definition timeoutError :: api_error where
  "timeoutError = \<lparr>errMessage = asc ''Request timed out.'', errStatus = None\<rparr>"

definition authError :: api_error where
  "authError = \<lparr>errMessage = asc ''Incorrect API key provided'', errStatus = Some 401\<rparr>"

text \<open>The trimmed text starts with \<open>ai/\<close> or \<open>ai+\<close>, in any letter case.\<close>

definition aiPrefixed :: "jsstring \<Rightarrow> bool" where
  "aiPrefixed t \<longleftrightarrow>
     prefix (asc ''ai/'') (toLowerCase (trim t)) \<or> prefix (asc ''ai+'') (toLowerCase (trim t))"

text \<open>
  The question of a text with the AI prefix, as the handler reads it: the trimmed text
  without its first three units, trimmed again; when that starts with the word for
  "detailed" or the word for "advanced" the detailed mode is asked for and the word is cut
  off. The body that follows the acknowledgement tells that no service client is
  configured, or carries the answer of the gateway, or tells that the call failed.
\<close>

definition aiRaw :: "jsstring \<Rightarrow> jsstring" where
  "aiRaw t = trim (drop 3 (trim t))"

definition aiWantsDetail :: "jsstring \<Rightarrow> bool" where
  "aiWantsDetail t \<longleftrightarrow> prefix [0x8A73, 0x7D30] (aiRaw t) \<or> prefix [0x9032, 0x968E] (aiRaw t)"

definition aiQuestionOf :: "jsstring \<Rightarrow> jsstring" where
  "aiQuestionOf t = (if aiWantsDetail t then trim (drop 2 (aiRaw t)) else aiRaw t)"

definition aiBodyOf :: "bot \<Rightarrow> jsstring \<Rightarrow> reply_body" where
  "aiBodyOf b t =
     (if \<not> hasClient b then AiNoClient (aiQuestionOf t)
      else
        (case askAi b (aiQuestionOf t) (if aiWantsDetail t then Detailed else Concise) of
           None \<Rightarrow> AiFailed (aiQuestionOf t)
         | Some a \<Rightarrow> if a = [] then AiFailed (aiQuestionOf t) else AiAnswer (aiWantsDetail t) a))"

text \<open>The menu and category commands, and what each of them is answered with.\<close>

definition menuWords :: "jsstring list" where
  "menuWords = [[0x529F, 0x80FD], asc ''help'', [0x4F7F, 0x7528, 0x8AAA, 0x660E]]"

definition overtimeWords :: "jsstring list" where
  "overtimeWords = [[0x52A0, 0x73ED, 0x76F8, 0x95DC]]"

definition leaveWords :: "jsstring list" where
  "leaveWords = [[0x7279, 0x4F11, 0x76F8, 0x95DC], [0x4F11, 0x5047, 0x76F8, 0x95DC]]"

definition resignWords :: "jsstring list" where
  "resignWords =
     [[0x96E2, 0x8077, 0x76F8, 0x95DC], [0x8CC7, 0x9063, 0x76F8, 0x95DC],
      [0x96E2, 0x8077, 0x8CC7, 0x9063, 0x76F8, 0x95DC]]"

text \<open>
  A sample text-message event, a FAQ record with the keyword "overtime" in Chinese, and a
  sample bot without a service client.
\<close>

definition sampleFaqs :: "faq list" where
  "sampleFaqs =
     [\<lparr>faq.question = asc ''Q'', answer = asc ''A'', faqKeywords = Some [[0x52A0, 0x73ED]]\<rparr>]"

definition sampleEvent :: "jsstring \<Rightarrow> line_source option \<Rightarrow> line_event" where
  "sampleEvent t src =
     \<lparr>replyToken = asc ''token-1'', evType = Message (TextMessage (Some t)), evSource = src\<rparr>"

definition sampleBot :: bot where
  "sampleBot =
     \<lparr>botArticles = sampleArticles, botFaqs = sampleFaqs, hasClient = False,
      outside = alwaysFails authError (\<lambda>j. 0), caseMap = toLowerCase\<rparr>"

section \<open>Properties\<close>

subsection \<open>Strings\<close>

lemma includes_iff: "includesStr s p \<longleftrightarrow> (\<exists>pre post. s = pre @ p @ post)"
proof (induction s)
  case Nil
  then show ?case by auto
next
  case (Cons c s)
  show ?case
  proof
    assume "includesStr (c # s) p"
    then consider "prefix p (c # s)" | "includesStr s p" by auto
    then show "\<exists>pre post. c # s = pre @ p @ post"
    proof cases
      case 1
      then obtain post where "c # s = p @ post" by (auto simp: prefix_def)
      then have "c # s = [] @ p @ post" by simp
      then show ?thesis by blast
    next
      case 2
      with Cons.IH obtain pre post where "s = pre @ p @ post" by blast
      then have "c # s = (c # pre) @ p @ post" by simp
      then show ?thesis by blast
    qed
  next
    assume "\<exists>pre post. c # s = pre @ p @ post"
    then obtain pre post where eq: "c # s = pre @ p @ post" by blast
    show "includesStr (c # s) p"
    proof (cases pre)
      case Nil
      with eq have "prefix p (c # s)" by (simp add: prefix_def)
      then show ?thesis by simp
    next
      case (Cons d pre')
      with eq have "s = pre' @ p @ post" by simp
      with Cons.IH have "includesStr s p" by blast
      then show ?thesis by simp
    qed
  qed
qed

subsection \<open>Reply length guard\<close>

text \<open>
  Claim C9. The truncation marker is the seven code units of the source literal (a line
  feed, an ellipsis and the bracketed words for "truncated"), so it is not empty. A reply
  body longer than the safe limit of 4500 code units is cut to its first 4500 units
  followed by the marker: the result has 4507 units, ends with the marker, keeps the head
  of the original text, differs from the bare cut and is never empty. A body of at most
  4500 units is returned unchanged.
\<close>

theorem ensureLineLength_truncates:
  "truncationMarker = [0x0A, 0x2026, 0xFF08, 0x5DF2, 0x622A, 0x65B7, 0xFF09]
   \<and> truncationMarker \<noteq> []
   \<and> (length s > 4500 \<longrightarrow>
      ensureLineLength s = take 4500 s @ [0x0A, 0x2026, 0xFF08, 0x5DF2, 0x622A, 0x65B7, 0xFF09]
      \<and> ensureLineLength s = take 4500 s @ truncationMarker
      \<and> suffix truncationMarker (ensureLineLength s)
      \<and> suffix [0x0A, 0x2026, 0xFF08, 0x5DF2, 0x622A, 0x65B7, 0xFF09] (ensureLineLength s)
      \<and> prefix (take 4500 s) (ensureLineLength s)
      \<and> length (ensureLineLength s) = 4500 + length truncationMarker
      \<and> length (ensureLineLength s) = 4507
      \<and> ensureLineLength s \<noteq> take 4500 s
      \<and> ensureLineLength s \<noteq> [])
   \<and> (length s \<le> 4500 \<longrightarrow> ensureLineLength s = s)"
  by (auto simp: ensureLineLength_def ensureLineLengthAt_def truncationMarker_def suffix_def)

theorem ensureLineLength_truncates_witness:
  "length (replicate 4501 (0x61::nat)) > 4500
   \<and> ensureLineLength (replicate 4501 0x61)
       = replicate 4500 0x61 @ [0x0A, 0x2026, 0xFF08, 0x5DF2, 0x622A, 0x65B7, 0xFF09]
   \<and> length (ensureLineLength (replicate 4501 0x61)) = 4507
   \<and> ensureLineLength (replicate 4501 0x61) \<noteq> replicate 4500 0x61
   \<and> length (asc ''ok'') \<le> 4500 \<and> ensureLineLength (asc ''ok'') = asc ''ok''"
  using ensureLineLength_truncates [of "replicate 4501 0x61"]
    ensureLineLength_truncates [of "asc ''ok''"]
  by (simp add: asc_def)


subsection \<open>Overtime pay calculator\<close>

lemmas parse_defs = parseOtArgs_def stripCommand_def otCommand_def trim_def tokensOf_def
  applyToken_def mapKeys_def toLowerCase_def lowerUnit_def anyIncluded_def setField_def
  coerceValue_def parseFloat_def parseUnsigned_def parseExponent_def scale10_def digitsValue_def
  isDigit_def isSpace_def asc_def defaultParams_def Let_def

text \<open>
  Claim C2. \<open>computeOtPay\<close> returns the failure value \<open>InvalidWage\<close> exactly when the wage
  is absent, \<open>NaN\<close> or not strictly positive. With a positive wage it succeeds, each hour
  field of the result being a number that is not negative (the field clamped at 0). The
  command with the wage token \<open>=0\<close> and the command with the wage token \<open>=abc\<close>, whose
  value parses to \<open>NaN\<close>, both fail.
\<close>

theorem computeOtPay_invalid_wage:
  "(computeOtPay p = Inl InvalidWage \<longleftrightarrow>
      hourly p = Undefined \<or> hourly p = NaN \<or> (\<exists>r. hourly p = Num r \<and> r \<le> 0))
   \<and> (\<forall>h. hourly p = Num h \<and> 0 < h \<longrightarrow>
        (\<exists>res a b c. computeOtPay p = Inr res
           \<and> wk res = Num a \<and> 0 \<le> a \<and> rs res = Num b \<and> 0 \<le> b
           \<and> hd_hours res = Num c \<and> 0 \<le> c
           \<and> (\<forall>w. weekday p = Num w \<longrightarrow> a = max 0 w)
           \<and> (\<forall>w. rest p = Num w \<longrightarrow> b = max 0 w)
           \<and> (\<forall>w. holiday p = Num w \<longrightarrow> c = max 0 w)))
   \<and> computeOtPay (parseOtArgs (otCommand @ asc '' '' @ [0x6642, 0x85AA] @ asc ''=0''))
       = Inl InvalidWage
   \<and> computeOtPay (parseOtArgs (otCommand @ asc '' '' @ [0x6642, 0x85AA] @ asc ''=abc''))
       = Inl InvalidWage"
proof -
  have general: "(computeOtPay p = Inl InvalidWage \<longleftrightarrow>
      hourly p = Undefined \<or> hourly p = NaN \<or> (\<exists>r. hourly p = Num r \<and> r \<le> 0))
   \<and> (\<forall>h. hourly p = Num h \<and> 0 < h \<longrightarrow>
        (\<exists>res a b c. computeOtPay p = Inr res
           \<and> wk res = Num a \<and> 0 \<le> a \<and> rs res = Num b \<and> 0 \<le> b
           \<and> hd_hours res = Num c \<and> 0 \<le> c
           \<and> (\<forall>w. weekday p = Num w \<longrightarrow> a = max 0 w)
           \<and> (\<forall>w. rest p = Num w \<longrightarrow> b = max 0 w)
           \<and> (\<forall>w. holiday p = Num w \<longrightarrow> c = max 0 w)))"
    by (cases "hourly p"; cases "weekday p"; cases "rest p"; cases "holiday p")
       (auto simp: computeOtPay_def Let_def orElse_def mathMax_def)
  have zero: "parseOtArgs (otCommand @ asc '' '' @ [0x6642, 0x85AA] @ asc ''=0'')
      = defaultParams\<lparr>hourly := Num 0\<rparr>"
    by (simp add: parse_defs)
  have nan: "parseOtArgs (otCommand @ asc '' '' @ [0x6642, 0x85AA] @ asc ''=abc'') = defaultParams"
    by (simp add: parse_defs)
  have "computeOtPay (defaultParams\<lparr>hourly := Num 0\<rparr>) = Inl InvalidWage"
    and "computeOtPay defaultParams = Inl InvalidWage"
    by (simp_all add: computeOtPay_def defaultParams_def)
  with general zero nan show ?thesis by simp
qed

theorem computeOtPay_invalid_wage_witness:
  "computeOtPay (defaultParams\<lparr>hourly := Undefined\<rparr>) = Inl InvalidWage
   \<and> (\<exists>res. computeOtPay (defaultParams\<lparr>hourly := Num 183, weekday := Num (- 1)\<rparr>) = Inr res
        \<and> wk res = Num 0)"
proof -
  have "hourly (defaultParams\<lparr>hourly := Num 183, weekday := Num (- 1)\<rparr>) = Num 183 \<and> (0::rat) < 183"
    by simp
  moreover have "weekday (defaultParams\<lparr>hourly := Num 183, weekday := Num (- 1)\<rparr>) = Num (- 1)"
    by simp
  ultimately have "\<exists>res. computeOtPay (defaultParams\<lparr>hourly := Num 183, weekday := Num (- 1)\<rparr>) = Inr res
        \<and> wk res = Num (max 0 (- 1))"
    using computeOtPay_invalid_wage [of "defaultParams\<lparr>hourly := Num 183, weekday := Num (- 1)\<rparr>"]
    by blast
  moreover have "computeOtPay (defaultParams\<lparr>hourly := Undefined\<rparr>) = Inl InvalidWage"
    using computeOtPay_invalid_wage [of "defaultParams\<lparr>hourly := Undefined\<rparr>"] by simp
  ultimately show ?thesis by simp
qed

text \<open>
  Claim C6. On the example of the calculator's own help text the Chinese rate aliases do
  not reach the rate fields: \<open>mapKeys\<close> tests the hour aliases first, and each Chinese rate
  alias contains an hour alias, so the two overrides are stored as weekday hours (the
  second over the first) and both rates keep their defaults. The English rate aliases do
  reach the rate fields.
\<close>

theorem parseOtArgs_rate_alias_shadowed:
  "parseOtArgs helpExample = defaultParams\<lparr>hourly := Num 183, weekday := Num (167 / 100)\<rparr>
   \<and> weekdayRate1 (parseOtArgs helpExample) = Num (133 / 100)
   \<and> weekdayRate2 (parseOtArgs helpExample) = Num (166 / 100)
   \<and> mapKeys [0x5E73, 0x65E5, 0x500D, 0x6578, 0x31] = asc ''weekday''
   \<and> mapKeys [0x5E73, 0x65E5, 0x500D, 0x6578, 0x32] = asc ''weekday''
   \<and> mapKeys [0x4F11, 0x606F, 0x65E5, 0x500D, 0x6578] = asc ''rest''
   \<and> mapKeys [0x5047, 0x65E5, 0x500D, 0x6578] = asc ''holiday''
   \<and> mapKeys (asc ''WKR1'') = asc ''weekdayRate1''
   \<and> mapKeys (asc ''weekdayRate2'') = asc ''weekdayRate2''
   \<and> mapKeys (asc ''restRate'') = asc ''restRate''
   \<and> mapKeys (asc ''HolidayRate'') = asc ''holidayRate''"
proof -
  have "parseOtArgs helpExample = defaultParams\<lparr>hourly := Num 183, weekday := Num (167 / 100)\<rparr>"
    by (simp add: helpExample_def parse_defs)
  moreover have "mapKeys [0x5E73, 0x65E5, 0x500D, 0x6578, 0x31] = asc ''weekday''"
    and "mapKeys [0x5E73, 0x65E5, 0x500D, 0x6578, 0x32] = asc ''weekday''"
    and "mapKeys [0x4F11, 0x606F, 0x65E5, 0x500D, 0x6578] = asc ''rest''"
    and "mapKeys [0x5047, 0x65E5, 0x500D, 0x6578] = asc ''holiday''"
    and "mapKeys (asc ''WKR1'') = asc ''weekdayRate1''"
    and "mapKeys (asc ''weekdayRate2'') = asc ''weekdayRate2''"
    and "mapKeys (asc ''restRate'') = asc ''restRate''"
    and "mapKeys (asc ''HolidayRate'') = asc ''holidayRate''"
    by (simp_all add: mapKeys_def toLowerCase_def lowerUnit_def anyIncluded_def asc_def)
  ultimately show ?thesis by (simp add: defaultParams_def)
qed

lemma scale10_pos: "0 < scale10 e"
  by (simp add: scale10_def)

lemma mantissa_nonneg: "0 \<le> (rat_of_nat a + rat_of_nat b / 10 ^ n) * scale10 e"
proof -
  have "0 \<le> rat_of_nat a + rat_of_nat b / 10 ^ n" by simp
  moreover have "0 \<le> scale10 e" using scale10_pos [of e] by simp
  ultimately show ?thesis by (rule mult_nonneg_nonneg)
qed

lemma parseUnsigned_nonneg:
  assumes "parseUnsigned s = Some v"
  shows "0 \<le> v"
proof -
  define r1 where "r1 = dropWhile isDigit s"
  define pointed where "pointed \<longleftrightarrow> r1 \<noteq> [] \<and> hd r1 = 0x2E"
  define fp where "fp = (if pointed then takeWhile isDigit (tl r1) else [])"
  define r2 where "r2 = (if pointed then dropWhile isDigit (tl r1) else r1)"
  define m where "m = (rat_of_nat (digitsValue (takeWhile isDigit s))
      + rat_of_nat (digitsValue fp) / 10 ^ length fp) * scale10 (parseExponent r2)"
  have "parseUnsigned s = (if takeWhile isDigit s = [] \<and> fp = [] then None else Some m)"
    unfolding parseUnsigned_def Let_def m_def r2_def fp_def pointed_def r1_def by (rule refl)
  with assms have "v = m" by (simp split: if_splits)
  then show ?thesis unfolding m_def by (simp only: mantissa_nonneg)
qed

lemma parseFloat_unsigned:
  assumes "\<forall>c \<in> set s. isDigit c \<or> c = 0x2E"
  shows "parseFloat s = (case parseUnsigned s of None \<Rightarrow> NaN | Some v \<Rightarrow> Num v)"
proof (cases s)
  case Nil
  then show ?thesis by (simp add: parseFloat_def parseUnsigned_def)
next
  case (Cons c r)
  with assms have "isDigit c \<or> c = 0x2E" by simp
  then have "\<not> isSpace c" and "c \<noteq> 0x2D" and "c \<noteq> 0x2B"
    by (auto simp: isDigit_def isSpace_def)
  with Cons show ?thesis by (simp add: parseFloat_def)
qed

lemma coerceValue_nonneg: "coerceValue rawV = NaN \<or> nonneg (coerceValue rawV)"
proof -
  let ?f = "filter (\<lambda>c. isDigit c \<or> c = 0x2E) rawV"
  have "parseFloat ?f = (case parseUnsigned ?f of None \<Rightarrow> NaN | Some v \<Rightarrow> Num v)"
    by (rule parseFloat_unsigned) simp
  then show ?thesis
    by (auto simp: coerceValue_def dest: parseUnsigned_nonneg split: option.splits)
qed

lemma coerceValue_drops_minus: "coerceValue (0x2D # v) = coerceValue v"
  by (simp add: coerceValue_def isDigit_def)

lemma setField_parsedOk: "parsedOk p \<Longrightarrow> nonneg v \<Longrightarrow> parsedOk (setField key v p)"
  by (simp add: parsedOk_def setField_def)

lemma applyToken_parsedOk:
  assumes ok: "parsedOk p"
  shows "parsedOk (applyToken p t)"
proof -
  have v: "\<And>rawV. \<not> numberIsNaN (coerceValue rawV) \<Longrightarrow> nonneg (coerceValue rawV)"
    using coerceValue_nonneg by (metis numberIsNaN.simps(1))
  show ?thesis
    unfolding applyToken_def Let_def
    by (auto split: list.splits intro!: setField_parsedOk ok v)
qed

lemma foldl_parsedOk: "parsedOk p \<Longrightarrow> parsedOk (foldl applyToken p ts)"
  by (induction ts arbitrary: p) (auto intro: applyToken_parsedOk)

lemma parseOtArgs_parsedOk: "parsedOk (parseOtArgs text)"
  unfolding parseOtArgs_def
  by (rule foldl_parsedOk) (simp add: parsedOk_def defaultParams_def)

lemma clamp_id: "nonneg v \<Longrightarrow> mathMax (Num 0) (orElse v (Num 0)) = v"
  by (cases v) (auto simp: mathMax_def orElse_def)

text \<open>
  Claim C10. Whatever the command text, every field of the record that \<open>parseOtArgs\<close>
  returns is a number that is not negative (the wage may also still be \<open>NaN\<close>, its
  default): the coercion deletes every unit other than a digit or the point, a minus sign
  among them, before \<open>parseFloat\<close> reads the value, so an assigned value is never
  negative. Hence the clamp \<open>Math.max(0, field || 0)\<close> of \<open>computeOtPay\<close> returns each hour
  field of a parsed record as it is.
\<close>

theorem parseOtArgs_nonneg:
  "(hourly (parseOtArgs text) = NaN \<or> nonneg (hourly (parseOtArgs text)))
   \<and> nonneg (weekday (parseOtArgs text)) \<and> nonneg (rest (parseOtArgs text))
   \<and> nonneg (holiday (parseOtArgs text))
   \<and> nonneg (weekdayRate1 (parseOtArgs text)) \<and> nonneg (weekdayRate2 (parseOtArgs text))
   \<and> nonneg (restRate (parseOtArgs text)) \<and> nonneg (holidayRate (parseOtArgs text))
   \<and> mathMax (Num 0) (orElse (weekday (parseOtArgs text)) (Num 0)) = weekday (parseOtArgs text)
   \<and> mathMax (Num 0) (orElse (rest (parseOtArgs text)) (Num 0)) = rest (parseOtArgs text)
   \<and> mathMax (Num 0) (orElse (holiday (parseOtArgs text)) (Num 0)) = holiday (parseOtArgs text)
   \<and> (coerceValue rawV = NaN \<or> nonneg (coerceValue rawV))
   \<and> coerceValue (0x2D # rawV) = coerceValue rawV"
  using parseOtArgs_parsedOk [of "text"] coerceValue_nonneg [of rawV] coerceValue_drops_minus [of rawV]
  by (simp add: parsedOk_def clamp_id)


subsection \<open>Keyword lookup\<close>

lemma foldl_countKeyword:
  "foldl (countKeyword lower q) n ks
     = n + length (filter (\<lambda>k. normalizeBy lower k \<noteq> []
                               \<and> includesStr q (normalizeBy lower k)) ks)"
  by (induction ks arbitrary: n) (auto simp: countKeyword_def Let_def)

lemma keywordScore_count:
  "keywordScore lower q (Some ks)
     = length (filter (\<lambda>k. normalizeBy lower k \<noteq> [] \<and> includesStr q (normalizeBy lower k)) ks)"
  by (simp add: keywordScore_def foldl_countKeyword)

lemma pickBetter_inv:
  fixes sc :: "'a \<Rightarrow> nat"
  defines "st xs \<equiv> foldl (pickBetter sc) (None, 0) xs"
  shows "(\<forall>x \<in> set xs. sc x \<le> snd (st xs))
     \<and> (fst (st xs) = None \<longrightarrow> snd (st xs) = 0)
     \<and> (\<forall>a. fst (st xs) = Some a \<longrightarrow>
           0 < snd (st xs)
           \<and> (\<exists>i < length xs. xs ! i = a \<and> sc a = snd (st xs) \<and> (\<forall>j < i. sc (xs ! j) < snd (st xs))))"
proof (induction xs rule: rev_induct)
  case Nil
  then show ?case by (simp add: st_def)
next
  case (snoc x xs)
  have step: "st (xs @ [x]) = (if sc x > snd (st xs) then (Some x, sc x) else st xs)"
    by (simp add: st_def pickBetter_def Let_def)
  show ?case
  proof (cases "sc x > snd (st xs)")
    case True
    then have s: "st (xs @ [x]) = (Some x, sc x)" using step by simp
    have "\<forall>j < length xs. sc ((xs @ [x]) ! j) < sc x"
      using snoc True by (auto simp: nth_append intro: le_less_trans)
    then have "\<exists>i < length (xs @ [x]). (xs @ [x]) ! i = x \<and> sc x = sc x
        \<and> (\<forall>j < i. sc ((xs @ [x]) ! j) < sc x)"
      by (intro exI [of _ "length xs"]) simp
    moreover have "\<forall>y \<in> set (xs @ [x]). sc y \<le> sc x"
      using snoc True by (auto intro: less_imp_le le_less_trans)
    ultimately show ?thesis using True by (simp add: s)
  next
    case False
    then have s: "st (xs @ [x]) = st xs" using step by simp
    have "\<forall>y \<in> set (xs @ [x]). sc y \<le> snd (st xs)"
      using snoc False by auto
    moreover have "\<forall>a. fst (st xs) = Some a \<longrightarrow>
           0 < snd (st xs)
           \<and> (\<exists>i < length (xs @ [x]). (xs @ [x]) ! i = a \<and> sc a = snd (st xs)
                \<and> (\<forall>j < i. sc ((xs @ [x]) ! j) < snd (st xs)))"
    proof (intro allI impI)
      fix a assume "fst (st xs) = Some a"
      with snoc obtain i where pos: "0 < snd (st xs)" and i: "i < length xs" "xs ! i = a"
        "sc a = snd (st xs)" "\<forall>j < i. sc (xs ! j) < snd (st xs)" by blast
      from i have "i < length (xs @ [x])" "(xs @ [x]) ! i = a"
        "\<forall>j < i. sc ((xs @ [x]) ! j) < snd (st xs)"
        by (auto simp: nth_append)
      with pos i(3) show "0 < snd (st xs)
           \<and> (\<exists>i < length (xs @ [x]). (xs @ [x]) ! i = a \<and> sc a = snd (st xs)
                \<and> (\<forall>j < i. sc ((xs @ [x]) ! j) < snd (st xs)))" by blast
    qed
    moreover have "fst (st xs) = None \<longrightarrow> snd (st xs) = 0" using snoc by blast
    ultimately show ?thesis by (simp add: s)
  qed
qed


lemma firstBest_unique: "firstBest sc xs i \<Longrightarrow> firstBest sc xs k \<Longrightarrow> i = k"
  unfolding firstBest_def
  by (metis leD linorder_neqE_nat)

lemma pick_result:
  fixes sc :: "'a \<Rightarrow> nat" and xs :: "'a list"
  defines "st \<equiv> foldl (pickBetter sc) (None, 0) xs"
  defines "res \<equiv> (if fst st = None \<or> snd st = 0 then None else fst st)"
  shows "(res = Some a \<longleftrightarrow> (\<exists>i. firstBest sc xs i \<and> xs ! i = a))
       \<and> (res = None \<longleftrightarrow> (\<forall>x \<in> set xs. sc x = 0))"
proof -
  note inv = pickBetter_inv [of xs sc, folded st_def]
  have some: "res = Some a \<Longrightarrow> \<exists>i. firstBest sc xs i \<and> xs ! i = a" for a
  proof -
    assume "res = Some a"
    then have "fst st = Some a" by (auto simp: res_def split: if_splits)
    with inv obtain i where "i < length xs" "xs ! i = a" "sc a = snd st" "0 < snd st"
      "\<forall>j < i. sc (xs ! j) < snd st" by blast
    moreover have "\<forall>j < length xs. sc (xs ! j) \<le> snd st" using inv by simp
    ultimately have "firstBest sc xs i" by (simp add: firstBest_def)
    with \<open>xs ! i = a\<close> show ?thesis by blast
  qed
  have none: "res = None \<longleftrightarrow> (\<forall>x \<in> set xs. sc x = 0)"
  proof
    assume "res = None"
    then have "snd st = 0" using inv by (auto simp: res_def split: if_splits)
    with inv show "\<forall>x \<in> set xs. sc x = 0" by auto
  next
    assume z: "\<forall>x \<in> set xs. sc x = 0"
    show "res = None"
    proof (rule ccontr)
      assume "res \<noteq> None"
      then obtain a where "res = Some a" by auto
      from some [OF this] obtain i where "firstBest sc xs i" by blast
      then have "i < length xs" "0 < sc (xs ! i)" by (auto simp: firstBest_def)
      with z show False by (metis nth_mem less_numeral_extra(3))
    qed
  qed
  have "res = Some a" if "firstBest sc xs i" "xs ! i = a" for i
  proof -
    from that have "\<not> (\<forall>x \<in> set xs. sc x = 0)"
      by (metis firstBest_def nth_mem less_numeral_extra(3))
    with none obtain b where b: "res = Some b" by auto
    from some [OF b] obtain k where "firstBest sc xs k" "xs ! k = b" by blast
    with that firstBest_unique [of sc xs i k] have "a = b" by auto
    with b show ?thesis by simp
  qed
  with some none show ?thesis by blast
qed

lemmas lookup_defs = findArticleByKeyword_def findBestFaq_def pickBetter_def keywordScore_def
  countKeyword_def normalizeBy_def asc_def stripSpaces_def toLowerCase_def lowerUnit_def
  isSpace_def Let_def

lemma claimedScore_blank:
  "claimedScore toLowerCase (normalizeBy toLowerCase (asc ''x'')) [asc '' ''] = 1"
  by (simp add: claimedScore_def normalizeBy_def asc_def stripSpaces_def toLowerCase_def
      lowerUnit_def isSpace_def)

text \<open>
  Claim C5, as stated, fails on a record with a blank keyword: its normal form is the empty
  string, which occurs in every query, so the stated score of the record on the query
  \<open>x\<close> is 1 and the record would be returned; the program skips such a keyword, scores the
  record 0 and returns none. (On these ASCII texts the lower-case mapping is the one of
  \<open>toLowerCase\<close>.)
\<close>

theorem findArticleByKeyword_blank_keyword_counterexample:
  "normalizeBy toLowerCase (asc '' '') = []
   \<and> includesStr (normalizeBy toLowerCase (asc ''x'')) (normalizeBy toLowerCase (asc '' ''))
   \<and> claimedScore toLowerCase (normalizeBy toLowerCase (asc ''x'')) [asc '' ''] = 1
   \<and> keywordScore toLowerCase (normalizeBy toLowerCase (asc ''x'')) (Some [asc '' '']) = 0
   \<and> findArticleByKeyword toLowerCase
        [\<lparr>no = 1, title = [], summary = [], keywordList = Some [asc '' '']\<rparr>] (asc ''x'') = None"
  by (simp add: claimedScore_blank) (simp add: lookup_defs)

text \<open>
  Claim C5, amended. Whatever the lower-case mapping of the runtime is, the normal form of
  a text is its lower-case form without white space, and the score of a record is the
  number of its keywords whose normal form is not empty and occurs in the normalized query
  (a record without a keyword list scores 0). The lookup returns the first record, in the
  order of the table, of the highest score when that score is positive, and none when the
  query is empty or every record scores 0 (an empty table among them). Being a function of
  the table and the query alone, it gives the same answer on every repetition. The FAQ
  lookup does the same over the FAQ records.
\<close>

theorem findArticleByKeyword_first_best:
  "normalizeBy lower s = (if s = [] then [] else filter (\<lambda>c. \<not> isSpace c) (lower s))
   \<and> keywordScore lower q None = 0
   \<and> keywordScore lower q (Some ks)
     = length (filter (\<lambda>k. normalizeBy lower k \<noteq> [] \<and> includesStr q (normalizeBy lower k)) ks)
   \<and> (findArticleByKeyword lower arts query = Some a \<longleftrightarrow>
        query \<noteq> []
        \<and> (\<exists>i. firstBest (\<lambda>x. keywordScore lower (normalizeBy lower query) (keywordList x)) arts i
                \<and> arts ! i = a))
   \<and> (findArticleByKeyword lower arts query = None \<longleftrightarrow>
        query = []
        \<or> (\<forall>x \<in> set arts. keywordScore lower (normalizeBy lower query) (keywordList x) = 0))
   \<and> (findBestFaq lower faqs query = Some f \<longleftrightarrow>
        query \<noteq> []
        \<and> (\<exists>i. firstBest (\<lambda>x. keywordScore lower (normalizeBy lower query) (faqKeywords x)) faqs i
                \<and> faqs ! i = f))
   \<and> (findBestFaq lower faqs query = None \<longleftrightarrow>
        query = []
        \<or> (\<forall>x \<in> set faqs. keywordScore lower (normalizeBy lower query) (faqKeywords x) = 0))"
proof -
  have "normalizeBy lower s = (if s = [] then [] else filter (\<lambda>c. \<not> isSpace c) (lower s))"
    by (simp add: normalizeBy_def stripSpaces_def)
  moreover have "keywordScore lower q None = 0" by (simp add: keywordScore_def)
  ultimately show ?thesis
    using pick_result
      [of "\<lambda>x. keywordScore lower (normalizeBy lower query) (keywordList x)" arts a]
      pick_result
      [of "\<lambda>x. keywordScore lower (normalizeBy lower query) (faqKeywords x)" faqs f]
    by (simp add: keywordScore_count findArticleByKeyword_def findBestFaq_def Let_def)
qed

lemma sample_scores:
  "map (\<lambda>x. keywordScore toLowerCase (normalizeBy toLowerCase (asc ''Overtime Pay''))
               (keywordList x)) sampleArticles
     = [1, 2, 2]"
  by (simp add: sampleArticles_def lookup_defs)

lemma wide_scores:
  "map (\<lambda>x. keywordScore foldWide (normalizeBy foldWide [0xFF4F, 0xFF54]) (keywordList x))
     wideArticles = [1]"
  by (simp add: wideArticles_def foldWide_def keywordScore_def countKeyword_def normalizeBy_def
      stripSpaces_def isSpace_def Let_def)

theorem findArticleByKeyword_first_best_witness:
  "normalizeBy toLowerCase (asc ''Overtime Pay'') = asc ''overtimepay''
   \<and> findArticleByKeyword toLowerCase sampleArticles (asc ''Overtime Pay'')
       = Some (sampleArticles ! 1)
   \<and> no (sampleArticles ! 1) = 32
   \<and> findArticleByKeyword toLowerCase sampleArticles (asc ''holiday'') = None
   \<and> findArticleByKeyword foldWide wideArticles [0xFF4F, 0xFF54] = Some (wideArticles ! 0)"
proof -
  let ?sc = "\<lambda>x. keywordScore toLowerCase (normalizeBy toLowerCase (asc ''Overtime Pay''))
                   (keywordList x)"
  have len: "length sampleArticles = 3" by (simp add: sampleArticles_def)
  have sc: "?sc (sampleArticles ! 0) = 1" "?sc (sampleArticles ! 1) = 2"
    "?sc (sampleArticles ! 2) = 2"
    using sample_scores len by (simp_all add: list_eq_iff_nth_eq)
  have lt3: "j < 3 \<longleftrightarrow> j = 0 \<or> j = 1 \<or> j = 2" for j :: nat by auto
  have "firstBest ?sc sampleArticles 1"
    unfolding firstBest_def len using sc by (auto simp: lt3)
  moreover have "asc ''Overtime Pay'' \<noteq> []" by (simp add: asc_def)
  ultimately have one: "findArticleByKeyword toLowerCase sampleArticles (asc ''Overtime Pay'')
      = Some (sampleArticles ! 1)"
    using findArticleByKeyword_first_best
      [of toLowerCase _ _ _ sampleArticles "asc ''Overtime Pay''" "sampleArticles ! 1"]
    by blast
  have "\<forall>x \<in> set sampleArticles.
      keywordScore toLowerCase (normalizeBy toLowerCase (asc ''holiday'')) (keywordList x) = 0"
    by (simp add: sampleArticles_def lookup_defs)
  then have two: "findArticleByKeyword toLowerCase sampleArticles (asc ''holiday'') = None"
    using findArticleByKeyword_first_best [of toLowerCase _ _ _ sampleArticles "asc ''holiday''"]
    by blast
  let ?wc = "\<lambda>x. keywordScore foldWide (normalizeBy foldWide [0xFF4F, 0xFF54]) (keywordList x)"
  have wlen: "length wideArticles = 1" by (simp add: wideArticles_def)
  have "?wc (wideArticles ! 0) = 1"
    using wide_scores wlen by (simp add: list_eq_iff_nth_eq)
  then have "firstBest ?wc wideArticles 0"
    unfolding firstBest_def wlen by simp
  then have three: "findArticleByKeyword foldWide wideArticles [0xFF4F, 0xFF54]
      = Some (wideArticles ! 0)"
    using findArticleByKeyword_first_best
      [of foldWide _ _ _ wideArticles "[0xFF4F, 0xFF54]" "wideArticles ! 0"]
    by blast
  have four: "normalizeBy toLowerCase (asc ''Overtime Pay'') = asc ''overtimepay''"
    using findArticleByKeyword_first_best [of toLowerCase "asc ''Overtime Pay''"]
    by (simp add: asc_def toLowerCase_def lowerUnit_def isSpace_def)
  have "no (sampleArticles ! 1) = 32" by (simp add: sampleArticles_def)
  with one two three four show ?thesis by simp
qed


subsection \<open>Article references\<close>

lemma searchFrom_None: "searchFrom m s = None \<longleftrightarrow> (\<forall>t. suffix t s \<longrightarrow> m t = None)"
  by (induction s) (auto simp: suffix_Cons split: option.splits)

lemma searchFrom_Some: "searchFrom m s = Some g \<Longrightarrow> \<exists>t. suffix t s \<and> m t = Some g"
  by (induction s) (auto simp: suffix_Cons split: option.splits)

lemma includes_suffix: "includesStr s p \<longleftrightarrow> (\<exists>t. suffix t s \<and> prefix p t)"
  by (auto simp: includes_iff suffix_def prefix_def)

lemma chDi_not_digit: "\<not> isAnyDigit chDi" "\<not> isAnyDigit chTiao"
  by (simp_all add: isAnyDigit_def isDigit_def isWideDigit_def chDi_def chTiao_def)

lemma take3_digits:
  "g = take 3 (takeWhile isAnyDigit r) \<Longrightarrow> length g \<le> 3 \<and> list_all isAnyDigit g"
  by (auto simp: list_all_iff dest: in_set_takeD set_takeWhileD)

lemma matchNamed_Some:
  assumes "matchNamed name w t = Some g"
  shows "g \<noteq> [] \<and> length g \<le> 3 \<and> list_all isAnyDigit g
     \<and> (\<exists>d. isAnyDigit d \<and> (prefix (name @ [d]) t \<or> prefix (name @ [chDi, d]) t))"
proof -
  from assms have p: "prefix name t" by (auto simp: matchNamed_def split: if_splits)
  then obtain r where t: "t = name @ r" by (auto simp: prefix_def)
  define r' where "r' = (if w \<and> r \<noteq> [] \<and> hd r = chDi then tl r else r)"
  from assms t have g: "g = take 3 (takeWhile isAnyDigit r')" and ne: "g \<noteq> []"
    by (auto simp: matchNamed_def Let_def r'_def split: if_splits)
  from ne g obtain d r'' where r'': "r' = d # r''" and d: "isAnyDigit d"
    by (cases r') (auto split: if_splits)
  have "prefix (name @ [d]) t \<or> prefix (name @ [chDi, d]) t"
  proof (cases "w \<and> r \<noteq> [] \<and> hd r = chDi")
    case True
    then have "r = chDi # r'" by (cases r) (auto simp: r'_def)
    with t r'' show ?thesis by (simp add: prefix_def)
  next
    case False
    then have "r' = r" unfolding r'_def by (simp only: if_False)
    with t r'' show ?thesis by (simp add: prefix_def)
  qed
  with d ne take3_digits [OF g] show ?thesis by blast
qed

lemma matchNamed_plain:
  assumes "prefix (name @ [d]) t" and "isAnyDigit d"
  shows "matchNamed name w t \<noteq> None"
proof -
  from assms obtain r where t: "t = name @ d # r" by (auto simp: prefix_def)
  have "d \<noteq> chDi" using assms chDi_not_digit by auto
  with t assms(2) show ?thesis by (simp add: matchNamed_def Let_def)
qed

lemma matchNamed_di:
  assumes "prefix (name @ [chDi, d]) t" and "isAnyDigit d"
  shows "matchNamed name True t \<noteq> None"
proof -
  from assms obtain r where t: "t = name @ chDi # d # r" by (auto simp: prefix_def)
  with assms(2) show ?thesis by (simp add: matchNamed_def Let_def)
qed

lemma matchBare_Some:
  assumes "matchBare t = Some g"
  shows "g \<noteq> [] \<and> length g \<le> 3 \<and> list_all isAnyDigit g \<and> prefix (chDi # g @ [chTiao]) t"
proof -
  from assms obtain r where t: "t = chDi # r"
    by (cases t) (auto simp: matchBare_def split: if_splits)
  define r' where "r' = dropWhile isAnyDigit r"
  from assms t have g: "g = takeWhile isAnyDigit r" and ne: "g \<noteq> []" and len: "length g \<le> 3"
    and r': "r' \<noteq> []" "hd r' = chTiao"
    by (auto simp: matchBare_def Let_def r'_def split: if_splits)
  have "r = g @ r'" by (simp add: g r'_def)
  moreover from r' obtain z where "r' = chTiao # z" by (cases r') auto
  ultimately have "prefix (chDi # g @ [chTiao]) t" using t by (simp add: prefix_def)
  moreover have "list_all isAnyDigit g" by (auto simp: g list_all_iff dest: set_takeWhileD)
  ultimately show ?thesis using ne len by blast
qed

lemma matchBare_prefix:
  assumes "prefix (chDi # g @ [chTiao]) t" and "g \<noteq> []" and "length g \<le> 3"
    and "list_all isAnyDigit g"
  shows "matchBare t = Some g"
proof -
  from assms(1) obtain z where t: "t = chDi # g @ chTiao # z" by (auto simp: prefix_def)
  have tw: "takeWhile isAnyDigit (g @ chTiao # z) = g"
    using assms(4) chDi_not_digit by (simp add: takeWhile_append2 list_all_iff)
  have dw: "dropWhile isAnyDigit (g @ chTiao # z) = chTiao # z"
    using assms(4) chDi_not_digit by (simp add: dropWhile_append2 list_all_iff)
  show ?thesis
    unfolding matchBare_def t using assms(2,3) by (simp add: tw dw Let_def chDi_not_digit)
qed

lemma halfWidth_digit: "isAnyDigit c \<Longrightarrow> isDigit (halfWidth c)"
  by (auto simp: isAnyDigit_def isDigit_def isWideDigit_def halfWidth_def)

lemma parseInt_digits:
  assumes "g \<noteq> []" and "list_all isDigit g"
  shows "parseInt g = Some (int (digitsValue g))"
proof -
  from assms obtain c r where g: "g = c # r" and c: "isDigit c" by (cases g) auto
  then have "\<not> isSpace c" "c \<noteq> 0x2D" "c \<noteq> 0x2B" by (auto simp: isDigit_def isSpace_def)
  moreover have "takeWhile isDigit g = g" using assms(2) by (simp add: list_all_iff)
  ultimately show ?thesis using g by (simp add: parseInt_def parseIntDigits_def Let_def)
qed

lemma digitsValue_bound_aux:
  "list_all isDigit g \<Longrightarrow> foldl (\<lambda>a c. 10 * a + (c - 0x30)) a g < (a + 1) * 10 ^ length g"
proof (induction g arbitrary: a)
  case Nil
  then show ?case by simp
next
  case (Cons c g)
  then have c: "c - 0x30 \<le> 9" by (auto simp: isDigit_def)
  have "foldl (\<lambda>a c. 10 * a + (c - 0x30)) (10 * a + (c - 0x30)) g
      < (10 * a + (c - 0x30) + 1) * 10 ^ length g"
    using Cons by simp
  also have "\<dots> \<le> (10 * a + 10) * 10 ^ length g"
    using c by (intro mult_le_mono1) simp
  finally show ?case by (simp add: algebra_simps)
qed

lemma digitsValue_bound: "list_all isDigit g \<Longrightarrow> digitsValue g < 10 ^ length g"
  using digitsValue_bound_aux [of g 0] by (simp add: digitsValue_def)

lemma digitsValue_lt_1000:
  assumes "list_all isDigit g" and "length g \<le> 3"
  shows "digitsValue g < 1000"
proof -
  have "digitsValue g < 10 ^ length g" using assms(1) by (rule digitsValue_bound)
  also have "(10::nat) ^ length g \<le> 10 ^ 3" using assms(2) by (intro power_increasing) simp_all
  finally show ?thesis by simp
qed


lemma goodGroup_parse:
  assumes "goodGroup g"
  shows "\<exists>n. parseInt (map halfWidth g) = Some n \<and> 0 \<le> n \<and> n < 1000"
proof -
  let ?h = "map halfWidth g"
  from assms have h: "?h \<noteq> []" "list_all isDigit ?h" "length ?h \<le> 3"
    by (auto simp: goodGroup_def list_all_iff halfWidth_digit)
  then have "parseInt ?h = Some (int (digitsValue ?h))" by (simp add: parseInt_digits)
  moreover have "digitsValue ?h < 1000" using h by (simp add: digitsValue_lt_1000)
  ultimately show ?thesis by simp
qed

lemma tryPatterns_skip: "searchFrom p s = None \<Longrightarrow> tryPatterns (p # ps) s = tryPatterns ps s"
  by simp

lemma tryPatterns_hit:
  "searchFrom p s = Some g \<Longrightarrow> g \<noteq> [] \<Longrightarrow> parseInt (map halfWidth g) = Some n
     \<Longrightarrow> tryPatterns (p # ps) s = Some n"
  by simp

lemma tryPatterns_char:
  assumes "\<forall>p \<in> set ps. \<forall>t g. p t = Some g \<longrightarrow> goodGroup g"
  shows "(tryPatterns ps s = None \<longleftrightarrow> (\<forall>p \<in> set ps. searchFrom p s = None))
     \<and> (\<forall>n. tryPatterns ps s = Some n \<longrightarrow> 0 \<le> n \<and> n < 1000)"
  using assms
proof (induction ps)
  case Nil
  show ?case by simp
next
  case (Cons p ps)
  have tail: "\<forall>q \<in> set ps. \<forall>t g. q t = Some g \<longrightarrow> goodGroup g"
    using Cons.prems by simp
  have head: "\<And>t g. p t = Some g \<Longrightarrow> goodGroup g"
    using Cons.prems by simp
  note IH = Cons.IH [OF tail]
  show ?case
  proof (cases "searchFrom p s")
    case None
    have "tryPatterns (p # ps) s = tryPatterns ps s" using None by (rule tryPatterns_skip)
    then show ?thesis using IH None by simp
  next
    case (Some g)
    from searchFrom_Some [OF Some] obtain t where "p t = Some g" by auto
    then have gg: "goodGroup g" by (rule head)
    from goodGroup_parse [OF gg] obtain n where n: "parseInt (map halfWidth g) = Some n"
      "0 \<le> n" "n < 1000" by auto
    from gg have "g \<noteq> []" by (simp add: goodGroup_def)
    from Some this n(1) have r: "tryPatterns (p # ps) s = Some n" by (rule tryPatterns_hit)
    show ?thesis using Some n(2,3) by (simp add: r del: tryPatterns.simps)
  qed
qed

lemma matchNamed_good: "matchNamed name w t = Some g \<Longrightarrow> goodGroup g"
  unfolding goodGroup_def using matchNamed_Some [of name w t g] by blast

lemma matchBare_good: "matchBare t = Some g \<Longrightarrow> goodGroup g"
  unfolding goodGroup_def using matchBare_Some [of t g] by blast

lemma patterns_good: "\<forall>p \<in> set patterns. \<forall>t g. p t = Some g \<longrightarrow> goodGroup g"
  unfolding patterns_def
  by (simp only: list.set ball_simps ball_empty simp_thms) (blast intro: matchNamed_good matchBare_good)

lemma searchFrom_hit: "suffix t s \<Longrightarrow> m t \<noteq> None \<Longrightarrow> searchFrom m s \<noteq> None"
  by (induction s) (auto simp: suffix_Cons split: option.splits)

lemma named_found:
  assumes "includesStr s (name @ [d]) \<or> includesStr s (name @ [chDi, d])" and "isAnyDigit d"
  shows "searchFrom (matchNamed name True) s \<noteq> None"
proof -
  from assms(1) obtain t where t: "suffix t s"
    and p: "prefix (name @ [d]) t \<or> prefix (name @ [chDi, d]) t"
    unfolding includes_suffix by auto
  from p have "matchNamed name True t \<noteq> None"
  proof
    assume "prefix (name @ [d]) t"
    then show ?thesis using assms(2) by (rule matchNamed_plain)
  next
    assume "prefix (name @ [chDi, d]) t"
    then show ?thesis using assms(2) by (rule matchNamed_di)
  qed
  with t show ?thesis by (rule searchFrom_hit)
qed

lemma bare_found:
  assumes "includesStr s (chDi # g @ [chTiao])" and "g \<noteq> []" and "length g \<le> 3"
    and "list_all isAnyDigit g"
  shows "searchFrom matchBare s \<noteq> None"
proof -
  from assms(1) obtain t where t: "suffix t s" and p: "prefix (chDi # g @ [chTiao]) t"
    unfolding includes_suffix by auto
  from p assms(2-4) have "matchBare t = Some g" by (rule matchBare_prefix)
  then have "matchBare t \<noteq> None" by simp
  with t show ?thesis by (rule searchFrom_hit)
qed

lemma named_phrase:
  assumes "searchFrom (matchNamed name w) s \<noteq> None"
  shows "\<exists>d. isAnyDigit d \<and> (includesStr s (name @ [d]) \<or> includesStr s (name @ [chDi, d]))"
proof -
  from assms obtain g where sg: "searchFrom (matchNamed name w) s = Some g" by auto
  from searchFrom_Some [OF sg] obtain t where t: "suffix t s"
    and m: "matchNamed name w t = Some g" by auto
  from matchNamed_Some [OF m] obtain d where d: "isAnyDigit d"
    and p: "prefix (name @ [d]) t \<or> prefix (name @ [chDi, d]) t" by auto
  from t p have "includesStr s (name @ [d]) \<or> includesStr s (name @ [chDi, d])"
    unfolding includes_suffix by auto
  with d show ?thesis by auto
qed

lemma bare_phrase:
  assumes "searchFrom matchBare s \<noteq> None"
  shows "\<exists>g. g \<noteq> [] \<and> length g \<le> 3 \<and> list_all isAnyDigit g \<and> includesStr s (chDi # g @ [chTiao])"
proof -
  from assms obtain g where sg: "searchFrom matchBare s = Some g" by auto
  from searchFrom_Some [OF sg] obtain t where t: "suffix t s" and m: "matchBare t = Some g"
    by auto
  from matchBare_Some [OF m] have g: "g \<noteq> []" "length g \<le> 3" "list_all isAnyDigit g"
    and p: "prefix (chDi # g @ [chTiao]) t" by simp_all
  from t p have "includesStr s (chDi # g @ [chTiao])" unfolding includes_suffix by auto
  with g show ?thesis by auto
qed

lemma patterns_none:
  "(\<forall>p \<in> set patterns. searchFrom p s = None) \<longleftrightarrow>
     searchFrom (matchNamed lawFullName True) s = None
     \<and> searchFrom (matchNamed lawShortName True) s = None
     \<and> searchFrom (matchNamed lawFullName False) s = None
     \<and> searchFrom (matchNamed lawShortName False) s = None
     \<and> searchFrom matchBare s = None"
  unfolding patterns_def by (simp only: list.set ball_simps ball_empty simp_thms)

lemma phrase_found:
  assumes "hasArticlePhrase s"
  shows "searchFrom (matchNamed lawFullName True) s \<noteq> None
     \<or> searchFrom (matchNamed lawShortName True) s \<noteq> None
     \<or> searchFrom matchBare s \<noteq> None"
proof -
  from assms consider
    (full) d where "isAnyDigit d"
       "includesStr s (lawFullName @ [d]) \<or> includesStr s (lawFullName @ [chDi, d])"
    | (short) d where "isAnyDigit d"
       "includesStr s (lawShortName @ [d]) \<or> includesStr s (lawShortName @ [chDi, d])"
    | (bare) g where "g \<noteq> []" "length g \<le> 3" "list_all isAnyDigit g"
       "includesStr s (chDi # g @ [chTiao])"
    unfolding hasArticlePhrase_def by auto
  then show ?thesis
  proof cases
    case full
    then show ?thesis using named_found [of s lawFullName d] by simp
  next
    case short
    then show ?thesis using named_found [of s lawShortName d] by simp
  next
    case bare
    then show ?thesis using bare_found [of s g] by simp
  qed
qed

lemma found_phrase:
  assumes "searchFrom (matchNamed lawFullName w) s \<noteq> None
     \<or> searchFrom (matchNamed lawShortName w') s \<noteq> None
     \<or> searchFrom matchBare s \<noteq> None"
  shows "hasArticlePhrase s"
proof -
  from assms consider (full) "searchFrom (matchNamed lawFullName w) s \<noteq> None"
    | (short) "searchFrom (matchNamed lawShortName w') s \<noteq> None"
    | (bare) "searchFrom matchBare s \<noteq> None" by blast
  then show ?thesis
  proof cases
    case full
    from named_phrase [OF this] obtain d where "isAnyDigit d"
      "includesStr s (lawFullName @ [d]) \<or> includesStr s (lawFullName @ [chDi, d])" by auto
    then have "\<exists>d. isAnyDigit d \<and>
        (includesStr s (lawFullName @ [d]) \<or> includesStr s (lawFullName @ [chDi, d])
         \<or> includesStr s (lawShortName @ [d]) \<or> includesStr s (lawShortName @ [chDi, d]))"
      by auto
    then show ?thesis unfolding hasArticlePhrase_def by (rule disjI1)
  next
    case short
    from named_phrase [OF this] obtain d where "isAnyDigit d"
      "includesStr s (lawShortName @ [d]) \<or> includesStr s (lawShortName @ [chDi, d])" by auto
    then have "\<exists>d. isAnyDigit d \<and>
        (includesStr s (lawFullName @ [d]) \<or> includesStr s (lawFullName @ [chDi, d])
         \<or> includesStr s (lawShortName @ [d]) \<or> includesStr s (lawShortName @ [chDi, d]))"
      by auto
    then show ?thesis unfolding hasArticlePhrase_def by (rule disjI1)
  next
    case bare
    from bare_phrase [OF this] show ?thesis unfolding hasArticlePhrase_def by (rule disjI2)
  qed
qed

lemma no_match_iff:
  "(\<forall>p \<in> set patterns. searchFrom p s = None) \<longleftrightarrow> \<not> hasArticlePhrase s"
  unfolding patterns_none
  using phrase_found [of s] found_phrase [of True s True] found_phrase [of False s False]
  by blast

lemmas extract_defs = extractArticleNumber_def patterns_def matchNamed_def matchBare_def
  stripSpaces_def isSpace_def lawFullName_def lawShortName_def chDi_def chTiao_def
  isAnyDigit_def isDigit_def isWideDigit_def halfWidth_def parseInt_def parseIntDigits_def
  digitsValue_def asc_def Let_def





lemma class_facts:
  "isDigit c \<Longrightarrow> \<not> isSpace c" "isDigit c \<Longrightarrow> c \<noteq> chDi" "isSpace c \<Longrightarrow> c \<noteq> chDi"
  "\<not> isDigit chTiao" "\<not> isSpace chTiao" "chTiao \<noteq> chDi" "isSpace c \<Longrightarrow> \<not> isDigit c"
  by (auto simp: isDigit_def isSpace_def chDi_def chTiao_def)

lemma matchLaw_Some:
  assumes "matchLaw t = Some (g, behind)"
  shows "\<exists>ws1 ws2. t = chDi # ws1 @ g @ ws2 @ chTiao # behind
      \<and> list_all isSpace ws1 \<and> list_all isSpace ws2
      \<and> g \<noteq> [] \<and> length g \<le> 3 \<and> list_all isDigit g"
proof -
  from assms obtain r where t: "t = chDi # r"
    by (cases t) (auto simp: matchLaw_def split: if_splits)
  define ws1 where "ws1 = takeWhile isSpace r"
  define r1 where "r1 = dropWhile isSpace r"
  define r1' where "r1' = dropWhile isDigit r1"
  define ws2 where "ws2 = takeWhile isSpace r1'"
  define r2 where "r2 = dropWhile isSpace r1'"
  from assms t have g: "g = takeWhile isDigit r1" and ne: "g \<noteq> []" and len: "length g \<le> 3"
    and r2: "r2 \<noteq> []" "hd r2 = chTiao" and b: "behind = tl r2"
    by (auto simp: matchLaw_def Let_def r1_def r2_def r1'_def split: if_splits)
  from r2 b have r2': "r2 = chTiao # behind" by (cases r2) auto
  have "r = ws1 @ r1" by (simp add: ws1_def r1_def)
  moreover have "r1 = g @ r1'" by (simp add: g r1'_def)
  moreover have "r1' = ws2 @ r2" by (simp add: ws2_def r2_def)
  ultimately have "t = chDi # ws1 @ g @ ws2 @ chTiao # behind" using t r2' by simp
  moreover have "list_all isSpace ws1" "list_all isSpace ws2" "list_all isDigit g"
    by (auto simp: ws1_def ws2_def g list_all_iff dest: set_takeWhileD)
  ultimately show ?thesis using ne len by blast
qed

lemma dropWhile_all: "list_all P xs \<Longrightarrow> ys = [] \<or> \<not> P (hd ys) \<Longrightarrow> dropWhile P (xs @ ys) = ys"
  by (induction xs) (auto simp: dropWhile_eq_self_iff)

lemma takeWhile_all: "list_all P xs \<Longrightarrow> ys = [] \<or> \<not> P (hd ys) \<Longrightarrow> takeWhile P (xs @ ys) = xs"
  by (induction xs) (auto simp: takeWhile_eq_Nil_iff)

lemma matchLaw_shape:
  assumes "list_all isSpace ws1" and "list_all isSpace ws2"
    and "g \<noteq> []" and "length g \<le> 3" and "list_all isDigit g"
  shows "matchLaw (chDi # ws1 @ g @ ws2 @ chTiao # z) = Some (g, z)"
proof -
  from assms(3,5) have hg: "isDigit (hd g)" by (cases g) auto
  have hd1: "hd (g @ ws2 @ chTiao # z) = hd g" using assms(3) by simp
  have a: "dropWhile isSpace (ws1 @ g @ ws2 @ chTiao # z) = g @ ws2 @ chTiao # z"
    by (rule dropWhile_all [OF assms(1)]) (simp add: hd1 class_facts(1) [OF hg])
  have nd: "\<not> isDigit (hd (ws2 @ chTiao # z))"
    using assms(2) by (cases ws2) (auto simp: class_facts)
  have b: "takeWhile isDigit (g @ ws2 @ chTiao # z) = g"
    by (rule takeWhile_all [OF assms(5)]) (simp add: nd)
  have c: "dropWhile isDigit (g @ ws2 @ chTiao # z) = ws2 @ chTiao # z"
    by (rule dropWhile_all [OF assms(5)]) (simp add: nd)
  have d: "dropWhile isSpace (ws2 @ chTiao # z) = chTiao # z"
    by (rule dropWhile_all [OF assms(2)]) (simp add: class_facts)
  show ?thesis
    unfolding matchLaw_def using assms(3,4) by (simp add: a b c d Let_def class_facts)
qed

lemma lawOccurrence_suffix: "lawOccurrence s n \<longleftrightarrow> (\<exists>t. suffix t s \<and> matchAt t n)"
proof
  assume "lawOccurrence s n"
  then obtain ws1 g ws2 where w: "list_all isSpace ws1" "list_all isSpace ws2"
      "g \<noteq> []" "length g \<le> 3" "list_all isDigit g" and n: "n = int (digitsValue g)"
      and inc: "includesStr s (chDi # ws1 @ g @ ws2 @ [chTiao])"
    unfolding lawOccurrence_def by auto
  from inc obtain pre post where "s = pre @ (chDi # ws1 @ g @ ws2 @ [chTiao]) @ post"
    unfolding includes_iff by auto
  then have "suffix (chDi # ws1 @ g @ ws2 @ chTiao # post) s" by (simp add: suffix_def)
  moreover have "matchAt (chDi # ws1 @ g @ ws2 @ chTiao # post) n"
    unfolding matchAt_def using matchLaw_shape [OF w] n by auto
  ultimately show "\<exists>t. suffix t s \<and> matchAt t n" by auto
next
  assume "\<exists>t. suffix t s \<and> matchAt t n"
  then obtain t g behind where t: "suffix t s" and m: "matchLaw t = Some (g, behind)"
    and n: "n = int (digitsValue g)" unfolding matchAt_def by auto
  from matchLaw_Some [OF m] obtain ws1 ws2 where e: "t = chDi # ws1 @ g @ ws2 @ chTiao # behind"
    and w: "list_all isSpace ws1" "list_all isSpace ws2" "g \<noteq> []" "length g \<le> 3"
      "list_all isDigit g" by auto
  from t obtain pre where "s = pre @ t" by (auto simp: suffix_def)
  with e have "s = pre @ (chDi # ws1 @ g @ ws2 @ [chTiao]) @ behind" by simp
  then have "includesStr s (chDi # ws1 @ g @ ws2 @ [chTiao])" unfolding includes_iff by blast
  with w n show "lawOccurrence s n" unfolding lawOccurrence_def by blast
qed


lemma setAdd_set: "set (setAdd n nums) = insert n (set nums)"
  by (auto simp: setAdd_def)

lemma setAdd_distinct: "distinct nums \<Longrightarrow> distinct (setAdd n nums)"
  by (simp add: setAdd_def)

lemma addLawNumber_set:
  assumes "g \<noteq> []" and "length g \<le> 3" and "list_all isDigit g"
  shows "set (addLawNumber g nums)
     = set nums \<union> {n. 0 < n \<and> n = int (digitsValue g)}"
proof -
  have "parseInt g = Some (int (digitsValue g))" using assms(1,3) by (rule parseInt_digits)
  moreover have "digitsValue g < 1000" using assms(3,2) by (rule digitsValue_lt_1000)
  ultimately show ?thesis by (auto simp: addLawNumber_def setAdd_set)
qed

lemma addLawNumber_distinct: "distinct nums \<Longrightarrow> distinct (addLawNumber g nums)"
  by (auto simp: addLawNumber_def setAdd_distinct split: option.splits)

lemma scanLaw_distinct: "distinct nums \<Longrightarrow> distinct (scanLaw nums s)"
  by (induction nums s rule: scanLaw.induct)
     (auto simp: addLawNumber_distinct split: option.splits)

lemma matchAt_head: "matchAt t n \<Longrightarrow> t \<noteq> [] \<and> hd t = chDi"
  by (cases t) (auto simp: matchAt_def matchLaw_def split: if_splits)

lemma suffix_after_match:
  assumes m: "matchLaw (c # s) = Some (g, behind)" and t: "suffix t s" and a: "matchAt t n"
  shows "suffix t behind"
proof -
  from matchLaw_Some [OF m] obtain ws1 ws2 where e: "c # s = chDi # ws1 @ g @ ws2 @ chTiao # behind"
    and w: "list_all isSpace ws1" "list_all isSpace ws2" "list_all isDigit g" by auto
  define mid where "mid = ws1 @ g @ ws2 @ [chTiao]"
  from e have s: "s = mid @ behind" by (simp add: mid_def)
  have "\<not> isSpace chDi" "\<not> isDigit chDi"
    by (simp_all add: isSpace_def isDigit_def chDi_def)
  then have nodi: "chDi \<notin> set mid"
    using w class_facts(6) by (auto simp: mid_def list_all_iff)
  from t s have "suffix t behind \<or> (\<exists>xs. t = xs @ behind \<and> suffix xs mid)"
    by (simp add: suffix_append)
  then show ?thesis
  proof
    assume "suffix t behind"
    then show ?thesis .
  next
    assume "\<exists>xs. t = xs @ behind \<and> suffix xs mid"
    then obtain xs where xs: "t = xs @ behind" "suffix xs mid" by auto
    show ?thesis
    proof (cases xs)
      case Nil
      with xs show ?thesis by simp
    next
      case (Cons x xs')
      with xs have "hd t = x" and "x \<in> set mid"
        by (auto simp: suffix_def)
      with nodi matchAt_head [OF a] show ?thesis by auto
    qed
  qed
qed

lemma scanLaw_set:
  "set (scanLaw nums s) = set nums \<union> {n. 0 < n \<and> (\<exists>t. suffix t s \<and> matchAt t n)}"
proof (induction nums s rule: scanLaw.induct)
  case (1 nums)
  have "\<not> matchAt [] n" for n by (simp add: matchAt_def matchLaw_def)
  then show ?case by simp
next
  case (2 nums c s)
  show ?case
  proof (cases "matchLaw (c # s)")
    case None
    then have no: "\<not> matchAt (c # s) n" for n by (simp add: matchAt_def)
    have "(\<exists>t. suffix t (c # s) \<and> matchAt t n) \<longleftrightarrow> (\<exists>t. suffix t s \<and> matchAt t n)" for n
      using no by (auto simp: suffix_Cons)
    with 2(1) [OF None] None show ?thesis by simp
  next
    case (Some gb)
    obtain g behind where gb: "gb = (g, behind)" by (cases gb)
    with Some have m: "matchLaw (c # s) = Some (g, behind)" by simp
    from matchLaw_Some [OF m] obtain ws1 ws2 where
      e: "c # s = chDi # ws1 @ g @ ws2 @ chTiao # behind"
      and w: "g \<noteq> []" "length g \<le> 3" "list_all isDigit g" by auto
    have sb: "suffix behind s" using e by (auto simp: suffix_def)
    have IH: "set (scanLaw (addLawNumber g nums) behind)
        = set (addLawNumber g nums) \<union> {n. 0 < n \<and> (\<exists>t. suffix t behind \<and> matchAt t n)}"
      using 2(2) [OF Some gb [symmetric]] .
    have here: "matchAt (c # s) n \<longleftrightarrow> n = int (digitsValue g)" for n
      using m by (auto simp: matchAt_def)
    have occ: "(\<exists>t. suffix t (c # s) \<and> matchAt t n)
        \<longleftrightarrow> n = int (digitsValue g) \<or> (\<exists>t. suffix t behind \<and> matchAt t n)" for n
    proof
      assume "\<exists>t. suffix t (c # s) \<and> matchAt t n"
      then obtain t where t: "suffix t (c # s)" "matchAt t n" by auto
      then consider "t = c # s" | "suffix t s" by (auto simp: suffix_Cons)
      then show "n = int (digitsValue g) \<or> (\<exists>t. suffix t behind \<and> matchAt t n)"
      proof cases
        case 1
        with t here show ?thesis by simp
      next
        case 2
        from suffix_after_match [OF m 2 t(2)] t(2) show ?thesis by auto
      qed
    next
      assume "n = int (digitsValue g) \<or> (\<exists>t. suffix t behind \<and> matchAt t n)"
      then show "\<exists>t. suffix t (c # s) \<and> matchAt t n"
      proof
        assume "n = int (digitsValue g)"
        then have "matchAt (c # s) n" using here by simp
        then show ?thesis using suffix_order.refl by blast
      next
        assume "\<exists>t. suffix t behind \<and> matchAt t n"
        then obtain t where "suffix t behind" "matchAt t n" by auto
        with sb have "suffix t (c # s)" by (meson suffix_ConsI suffix_order.trans)
        with \<open>matchAt t n\<close> show ?thesis by auto
      qed
    qed
    have "scanLaw nums (c # s) = scanLaw (addLawNumber g nums) behind"
      using m by simp
    then have "set (scanLaw nums (c # s))
        = set (addLawNumber g nums) \<union> {n. 0 < n \<and> (\<exists>t. suffix t behind \<and> matchAt t n)}"
      using IH by (simp only:)
    also have "\<dots> = set nums \<union> {n. 0 < n \<and> n = int (digitsValue g)}
        \<union> {n. 0 < n \<and> (\<exists>t. suffix t behind \<and> matchAt t n)}"
      by (simp only: addLawNumber_set [OF w])
    also have "\<dots> = set nums
        \<union> {n. 0 < n \<and> (n = int (digitsValue g) \<or> (\<exists>t. suffix t behind \<and> matchAt t n))}"
      by blast
    also have "\<dots> = set nums \<union> {n. 0 < n \<and> (\<exists>t. suffix t (c # s) \<and> matchAt t n)}"
      by (simp only: occ)
    finally show ?thesis .
  qed
qed

lemmas law_defs = extractLawNumbers_def matchLaw_def addLawNumber_def setAdd_def
  parseInt_def parseIntDigits_def digitsValue_def isDigit_def isSpace_def chDi_def chTiao_def
  asc_def Let_def

lemma law_examples:
  "extractLawNumbers ([chDi] @ asc ''11'' @ [chTiao] @ asc '', '' @ [chDi] @ asc ''17'' @ [chTiao])
     = [11, 17]"
  "extractLawNumbers ([chDi] @ asc ''17'' @ [chTiao] @ asc '' / '' @ [chDi] @ asc '' 11 '' @ [chTiao]
       @ [chDi] @ asc ''17'' @ [chTiao]) = [17, 11]"
  "extractLawNumbers ([chDi] @ asc ''0'' @ [chTiao]) = []"
  by (simp_all add: law_defs)

text \<open>
  Claim C8, as stated, fails on the phrase for article 0: the pattern matches it and the
  matched number is 0, yet the result is empty, the program keeping only numbers greater
  than 0.
\<close>

theorem extractLawNumbers_zero_counterexample:
  "lawOccurrence ([chDi] @ asc ''0'' @ [chTiao]) 0
   \<and> extractLawNumbers ([chDi] @ asc ''0'' @ [chTiao]) = []"
proof -
  have "matchLaw (chDi # [] @ asc ''0'' @ [] @ chTiao # []) = Some (asc ''0'', [])"
    by (rule matchLaw_shape) (simp_all add: asc_def isDigit_def)
  then have "matchAt ([chDi] @ asc ''0'' @ [chTiao]) (int (digitsValue (asc ''0'')))"
    unfolding matchAt_def by simp
  moreover have "int (digitsValue (asc ''0'')) = 0" by (simp add: digitsValue_def asc_def)
  ultimately have "matchAt ([chDi] @ asc ''0'' @ [chTiao]) 0" by simp
  then have "lawOccurrence ([chDi] @ asc ''0'' @ [chTiao]) 0"
    unfolding lawOccurrence_suffix using suffix_order.refl by blast
  with law_examples(3) show ?thesis by simp
qed

text \<open>
  Claim C8, amended. \<open>extractLawNumbers\<close> scans the whole text for bare article phrases and
  returns, without repetition, exactly the numbers greater than 0 that occur in such a
  phrase, whatever their order and however often they appear; a text with the phrases for
  11 and 17, in either order and with a repetition, gives the set of 11 and 17.
\<close>

theorem extractLawNumbers_positive_matches:
  "set (extractLawNumbers s) = {n. 0 < n \<and> lawOccurrence s n}
   \<and> distinct (extractLawNumbers s)
   \<and> set (extractLawNumbers
        ([chDi] @ asc ''11'' @ [chTiao] @ asc '', '' @ [chDi] @ asc ''17'' @ [chTiao])) = {11, 17}
   \<and> set (extractLawNumbers
        ([chDi] @ asc ''17'' @ [chTiao] @ asc '' / '' @ [chDi] @ asc '' 11 '' @ [chTiao]
         @ [chDi] @ asc ''17'' @ [chTiao])) = {11, 17}"
proof -
  have a: "set (extractLawNumbers s) = {n. 0 < n \<and> lawOccurrence s n}"
    by (simp only: extractLawNumbers_def scanLaw_set lawOccurrence_suffix list.set Un_empty_left)
  have b: "distinct (extractLawNumbers s)"
    unfolding extractLawNumbers_def by (rule scanLaw_distinct) simp
  have c: "set (extractLawNumbers
        ([chDi] @ asc ''11'' @ [chTiao] @ asc '', '' @ [chDi] @ asc ''17'' @ [chTiao])) = {11, 17}"
    by (simp only: law_examples list.set)
  have "set [17, 11 :: int] = {11, 17}" by (simp only: list.set insert_commute)
  then have d: "set (extractLawNumbers
        ([chDi] @ asc ''17'' @ [chTiao] @ asc '' / '' @ [chDi] @ asc '' 11 '' @ [chTiao]
         @ [chDi] @ asc ''17'' @ [chTiao])) = {11, 17}"
    by (simp only: law_examples)
  from a b c d show ?thesis by (intro conjI)
qed

theorem extractLawNumbers_positive_matches_witness:
  "{n. 0 < n \<and> lawOccurrence ([chDi] @ asc ''7'' @ [chTiao, chDi] @ asc ''0'' @ [chTiao]) n} = {7}"
proof -
  have "extractLawNumbers ([chDi] @ asc ''7'' @ [chTiao, chDi] @ asc ''0'' @ [chTiao]) = [7]"
    by (simp add: law_defs)
  then have "set (extractLawNumbers ([chDi] @ asc ''7'' @ [chTiao, chDi] @ asc ''0'' @ [chTiao]))
      = {7}"
    by (simp only: list.set)
  with extractLawNumbers_positive_matches
      [of "[chDi] @ asc ''7'' @ [chTiao, chDi] @ asc ''0'' @ [chTiao]"]
  show ?thesis by (simp only:)
qed


subsection \<open>External answer gateway\<close>

declare chatLoop.simps [simp del]

lemma chatLoop_done:
  "api w k rq = Completion c \<Longrightarrow> chatLoop w rq n a k j = (Inr c, [Call rq])"
  by (simp add: chatLoop.simps)

lemma chatLoop_stop:
  "api w k rq = Failure e \<Longrightarrow> \<not> retriable e \<or> n \<le> a
     \<Longrightarrow> chatLoop w rq n a k j = (Inl e, [Call rq])"
  by (auto simp: chatLoop.simps)

lemma chatLoop_retry:
  "api w k rq = Failure e \<Longrightarrow> retriable e \<Longrightarrow> a < n
     \<Longrightarrow> chatLoop w rq n a k j
       = (fst (chatLoop w rq n (a + 1) (k + 1) (j + 1)),
          Call rq # Wait (1000 * 2 ^ a + jitter w j) # snd (chatLoop w rq n (a + 1) (k + 1) (j + 1)))"
  by (subst chatLoop.simps) (simp add: Let_def split_beta)

lemma backoffTrace_0: "backoffTrace w rq a j 0 = [Call rq]"
  by (simp add: backoffTrace_def)

lemma backoffTrace_Suc:
  "backoffTrace w rq a j (Suc m)
     = Call rq # Wait (1000 * 2 ^ a + jitter w j) # backoffTrace w rq (a + 1) (j + 1) m"
proof -
  have "[0..<Suc m] = 0 # map Suc [0..<m]"
    by (simp add: upt_conv_Cons map_Suc_upt del: upt_Suc)
  then show ?thesis
    by (simp add: backoffTrace_def comp_def del: upt_Suc)
qed

lemma chatLoop_char:
  "\<exists>m. a + m \<le> max n a
      \<and> snd (chatLoop w rq n a k j) = backoffTrace w rq a j m
      \<and> (\<forall>i < m. transientAt w rq (k + i))
      \<and> (case fst (chatLoop w rq n a k j) of
            Inr c \<Rightarrow> api w (k + m) rq = Completion c
          | Inl e \<Rightarrow> api w (k + m) rq = Failure e \<and> (\<not> retriable e \<or> n \<le> a + m))"
proof (induction w rq n a k j rule: chatLoop.induct)
  case (1 w rq n a k j)
  show ?case
  proof (cases "api w k rq")
    case (Completion c)
    then have "chatLoop w rq n a k j = (Inr c, [Call rq])" by (rule chatLoop_done)
    with Completion show ?thesis
      by (intro exI [of _ 0]) (simp add: backoffTrace_0)
  next
    case (Failure e)
    show ?thesis
    proof (cases "\<not> retriable e \<or> n \<le> a")
      case True
      with Failure have "chatLoop w rq n a k j = (Inl e, [Call rq])" by (rule chatLoop_stop)
      with Failure True show ?thesis
        by (intro exI [of _ 0]) (auto simp: backoffTrace_0)
    next
      case False
      then have r: "retriable e" and lt: "a < n" by auto
      let ?c = "chatLoop w rq n (a + 1) (k + 1) (j + 1)"
      from "1.IH" [OF Failure False refl] obtain m where
        m: "a + 1 + m \<le> max n (a + 1)"
          "snd ?c = backoffTrace w rq (a + 1) (j + 1) m"
          "\<forall>i < m. transientAt w rq (k + 1 + i)"
          "case fst ?c of
              Inr c \<Rightarrow> api w (k + 1 + m) rq = Completion c
            | Inl e \<Rightarrow> api w (k + 1 + m) rq = Failure e \<and> (\<not> retriable e \<or> n \<le> a + 1 + m)"
        by auto
      have eq: "chatLoop w rq n a k j
          = (fst ?c, Call rq # Wait (1000 * 2 ^ a + jitter w j) # snd ?c)"
        using Failure r lt by (rule chatLoop_retry)
      have t0: "transientAt w rq k" using Failure r by (simp add: transientAt_def)
      have tr: "\<forall>i < Suc m. transientAt w rq (k + i)"
      proof (intro allI impI)
        fix i assume "i < Suc m"
        show "transientAt w rq (k + i)"
        proof (cases i)
          case 0
          with t0 show ?thesis by simp
        next
          case (Suc i')
          with \<open>i < Suc m\<close> m(3) have "transientAt w rq (k + 1 + i')" by simp
          with Suc show ?thesis by simp
        qed
      qed
      have "a + Suc m \<le> max n a" using m(1) lt by simp
      moreover have "snd (chatLoop w rq n a k j) = backoffTrace w rq a j (Suc m)"
        by (simp only: eq snd_conv m(2) backoffTrace_Suc)
      moreover have "case fst (chatLoop w rq n a k j) of
            Inr c \<Rightarrow> api w (k + Suc m) rq = Completion c
          | Inl e \<Rightarrow> api w (k + Suc m) rq = Failure e \<and> (\<not> retriable e \<or> n \<le> a + Suc m)"
      proof -
        have "k + Suc m = k + 1 + m" "a + Suc m = a + 1 + m" by simp_all
        then show ?thesis using m(4) by (simp only: eq fst_conv)
      qed
      ultimately show ?thesis using tr by (intro exI [of _ "Suc m"]) simp
    qed
  qed
qed


lemma ladder_eq:
  "askOpenAIForLaborHelp w True q Detailed k j =
     (if \<not> exhausted (detailedChain1 w q k j)
        then (answerOf (projr (fst (detailedChain1 w q k j))), snd (detailedChain1 w q k j))
      else if \<not> exhausted (detailedChain2 w q k j)
        then (answerOf (projr (fst (detailedChain2 w q k j))),
              snd (detailedChain1 w q k j) @ snd (detailedChain2 w q k j))
      else if \<not> exhausted (detailedChain3 w q k j)
        then (answerOf (projr (fst (detailedChain3 w q k j))),
              snd (detailedChain1 w q k j) @ snd (detailedChain2 w q k j)
              @ snd (detailedChain3 w q k j))
      else (None, snd (detailedChain1 w q k j) @ snd (detailedChain2 w q k j)
                  @ snd (detailedChain3 w q k j)))"
proof -
  obtain r1 t1 where c1: "detailedChain1 w q k j = (r1, t1)" by (cases "detailedChain1 w q k j")
  obtain r2 t2 where c2: "detailedChain2 w q k j = (r2, t2)" by (cases "detailedChain2 w q k j")
  obtain r3 t3 where c3: "detailedChain3 w q k j = (r3, t3)" by (cases "detailedChain3 w q k j")
  have o1: "openaiChatWithRetry w (firstTry Detailed q) 1 k j = (r1, t1)"
    using c1 by (simp add: detailedChain1_def)
  have o2: "openaiChatWithRetry w (detailedRetry q) 1 (k + calls t1) (j + waits t1) = (r2, t2)"
    using c2 by (simp add: detailedChain2_def c1)
  have o3: "openaiChatWithRetry w (conciseFallback q) 1 (k + calls (t1 @ t2)) (j + waits (t1 @ t2))
      = (r3, t3)"
    using c3 by (simp add: detailedChain3_def c1 c2)
  show ?thesis
    unfolding c1 c2 c3 exhausted_def askOpenAIForLaborHelp_def lastResort_def
    using o1 o2 o3 by (cases r1; cases r2; cases r3) simp_all
qed

lemma engine:
  "\<exists>m \<le> n. snd (openaiChatWithRetry w rq n k j) = backoffTrace w rq 0 j m
      \<and> (\<forall>i < m. transientAt w rq (k + i))
      \<and> (exhausted (openaiChatWithRetry w rq n k j) \<longleftrightarrow> (\<exists>e. api w (k + m) rq = Failure e))
      \<and> (exhausted (openaiChatWithRetry w rq n k j) \<longrightarrow> m = n \<or> \<not> transientAt w rq (k + m))"
proof -
  let ?c = "chatLoop w rq n 0 k j"
  from chatLoop_char [of 0 n w rq k j] have "\<exists>m. m \<le> n
      \<and> snd ?c = backoffTrace w rq 0 j m \<and> (\<forall>i < m. transientAt w rq (k + i))
      \<and> (case fst ?c of
            Inr c \<Rightarrow> api w (k + m) rq = Completion c
          | Inl e \<Rightarrow> api w (k + m) rq = Failure e \<and> (\<not> retriable e \<or> n \<le> m))"
    by (simp cong: sum.case_cong)
  then obtain m where
    m: "m \<le> n" "snd ?c = backoffTrace w rq 0 j m" "\<forall>i < m. transientAt w rq (k + i)"
      "case fst ?c of
            Inr c \<Rightarrow> api w (k + m) rq = Completion c
          | Inl e \<Rightarrow> api w (k + m) rq = Failure e \<and> (\<not> retriable e \<or> n \<le> m)"
    by blast
  have "exhausted ?c \<longleftrightarrow> (\<exists>e. api w (k + m) rq = Failure e)"
    using m(4) by (cases "fst ?c") (auto simp: exhausted_def)
  moreover have "exhausted ?c \<longrightarrow> m = n \<or> \<not> transientAt w rq (k + m)"
    using m(1,4) by (cases "fst ?c") (auto simp: exhausted_def transientAt_def)
  ultimately show ?thesis
    unfolding openaiChatWithRetry_def using m(1,2,3) by (intro exI [of _ m]) simp
qed

lemma no_retry:
  "api w k rq = Failure e \<Longrightarrow> \<not> retriable e
     \<Longrightarrow> openaiChatWithRetry w rq n k j = (Inl e, [Call rq])"
  unfolding openaiChatWithRetry_def by (rule chatLoop_stop) simp_all

lemma all_retries:
  assumes "\<forall>i \<le> n. transientAt w rq (k + i)"
  shows "exhausted (openaiChatWithRetry w rq n k j)
     \<and> snd (openaiChatWithRetry w rq n k j) = backoffTrace w rq 0 j n"
proof -
  from engine [of n w rq k j] obtain m where
    m: "m \<le> n" "snd (openaiChatWithRetry w rq n k j) = backoffTrace w rq 0 j m"
      "exhausted (openaiChatWithRetry w rq n k j) \<longleftrightarrow> (\<exists>e. api w (k + m) rq = Failure e)"
      "exhausted (openaiChatWithRetry w rq n k j) \<longrightarrow> m = n \<or> \<not> transientAt w rq (k + m)"
    by auto
  from assms m(1) have t: "transientAt w rq (k + m)" by simp
  then have ex: "exhausted (openaiChatWithRetry w rq n k j)"
    using m(3) by (auto simp: transientAt_def split: api_reply.splits)
  with m(4) t have "m = n" by simp
  with ex m(2) show ?thesis by simp
qed


lemma tier_requests:
  "firstTry Detailed q =
     \<lparr>systemMode = Detailed, question = q, maxTokens = 900, timeoutMs = 12000,
      logLabel = asc ''detailed#1''\<rparr>"
  "detailedRetry q =
     \<lparr>systemMode = Detailed, question = q, maxTokens = 600, timeoutMs = 10000,
      logLabel = asc ''detailed#2''\<rparr>"
  "conciseFallback q =
     \<lparr>systemMode = Concise, question = q, maxTokens = 320, timeoutMs = 9000,
      logLabel = asc ''concise#fallback''\<rparr>"
  by (simp_all add: firstTry_def detailedRetry_def conciseFallback_def)

lemma chain_bound:
  "\<exists>m \<le> 1. snd (openaiChatWithRetry w rq 1 k j) = backoffTrace w rq 0 j m"
  using engine [of 1 w rq k j] by blast

text \<open>
  Claim C3. A detailed request with a service client runs the ladder: the first detailed
  chain (900 tokens, 12 s); when it is exhausted, one chain at the reduced detailed
  configuration (still the detailed prompt, 600 tokens instead of 900, 10 s); when that is
  exhausted too, one chain at the concise configuration (the concise prompt, 320 tokens,
  9 s); and when the concise chain is exhausted the result is none, a value and not an
  exception. Each of the three chains is one run of the retry loop with retry count 1 on
  its own request, so it makes one call or two. A run of the retry loop with retry count
  \<open>n\<close> makes \<open>m + 1\<close> calls with \<open>m\<close> at most \<open>n\<close>, every call but the last having
  failed transiently, waits \<open>1000 * 2 ^ i\<close> plus the jitter before retry \<open>i\<close>, and is
  exhausted exactly when its last call failed, which then was not transient or was the
  call after the last allowed retry. A failure that is not transient is not retried at
  all, and failures that are all transient are retried exactly the retry count. A failure
  is transient when its message holds one of the five time-out and connection words of
  the source or its status is between 500 and 599.
\<close>

theorem askOpenAI_detailed_ladder:
  "askOpenAIForLaborHelp w True q Detailed k j =
     (if \<not> exhausted (detailedChain1 w q k j)
        then (answerOf (projr (fst (detailedChain1 w q k j))), snd (detailedChain1 w q k j))
      else if \<not> exhausted (detailedChain2 w q k j)
        then (answerOf (projr (fst (detailedChain2 w q k j))),
              snd (detailedChain1 w q k j) @ snd (detailedChain2 w q k j))
      else if \<not> exhausted (detailedChain3 w q k j)
        then (answerOf (projr (fst (detailedChain3 w q k j))),
              snd (detailedChain1 w q k j) @ snd (detailedChain2 w q k j)
              @ snd (detailedChain3 w q k j))
      else (None, snd (detailedChain1 w q k j) @ snd (detailedChain2 w q k j)
                  @ snd (detailedChain3 w q k j)))
   \<and> firstTry Detailed q =
       \<lparr>systemMode = Detailed, question = q, maxTokens = 900, timeoutMs = 12000,
        logLabel = asc ''detailed#1''\<rparr>
   \<and> detailedRetry q =
       \<lparr>systemMode = Detailed, question = q, maxTokens = 600, timeoutMs = 10000,
        logLabel = asc ''detailed#2''\<rparr>
   \<and> conciseFallback q =
       \<lparr>systemMode = Concise, question = q, maxTokens = 320, timeoutMs = 9000,
        logLabel = asc ''concise#fallback''\<rparr>
   \<and> systemMode (detailedRetry q) = systemMode (firstTry Detailed q)
   \<and> maxTokens (detailedRetry q) < maxTokens (firstTry Detailed q)
   \<and> systemMode (conciseFallback q) = Concise
   \<and> maxTokens (conciseFallback q) < maxTokens (detailedRetry q)
   \<and> detailedChain1 w q k j =
       openaiChatWithRetry w
         \<lparr>systemMode = Detailed, question = q, maxTokens = 900, timeoutMs = 12000,
          logLabel = asc ''detailed#1''\<rparr> 1 k j
   \<and> detailedChain2 w q k j =
       openaiChatWithRetry w
         \<lparr>systemMode = Detailed, question = q, maxTokens = 600, timeoutMs = 10000,
          logLabel = asc ''detailed#2''\<rparr> 1
         (k + calls (snd (detailedChain1 w q k j))) (j + waits (snd (detailedChain1 w q k j)))
   \<and> detailedChain3 w q k j =
       openaiChatWithRetry w
         \<lparr>systemMode = Concise, question = q, maxTokens = 320, timeoutMs = 9000,
          logLabel = asc ''concise#fallback''\<rparr> 1
         (k + calls (snd (detailedChain1 w q k j) @ snd (detailedChain2 w q k j)))
         (j + waits (snd (detailedChain1 w q k j) @ snd (detailedChain2 w q k j)))
   \<and> (\<exists>m \<le> 1. snd (detailedChain1 w q k j) =
         backoffTrace w
           \<lparr>systemMode = Detailed, question = q, maxTokens = 900, timeoutMs = 12000,
            logLabel = asc ''detailed#1''\<rparr> 0 j m)
   \<and> (\<exists>m \<le> 1. snd (detailedChain2 w q k j) =
         backoffTrace w
           \<lparr>systemMode = Detailed, question = q, maxTokens = 600, timeoutMs = 10000,
            logLabel = asc ''detailed#2''\<rparr> 0 (j + waits (snd (detailedChain1 w q k j))) m)
   \<and> (\<exists>m \<le> 1. snd (detailedChain3 w q k j) =
         backoffTrace w
           \<lparr>systemMode = Concise, question = q, maxTokens = 320, timeoutMs = 9000,
            logLabel = asc ''concise#fallback''\<rparr> 0
           (j + waits (snd (detailedChain1 w q k j) @ snd (detailedChain2 w q k j))) m)
   \<and> (\<exists>m \<le> n. snd (openaiChatWithRetry w rq n k' j') = backoffTrace w rq 0 j' m
         \<and> (\<forall>i < m. transientAt w rq (k' + i))
         \<and> (exhausted (openaiChatWithRetry w rq n k' j')
              \<longleftrightarrow> (\<exists>e. api w (k' + m) rq = Failure e))
         \<and> (exhausted (openaiChatWithRetry w rq n k' j')
              \<longrightarrow> m = n \<or> \<not> transientAt w rq (k' + m)))
   \<and> (\<forall>e. api w k' rq = Failure e \<and> \<not> retriable e
         \<longrightarrow> openaiChatWithRetry w rq n k' j' = (Inl e, [Call rq]))
   \<and> ((\<forall>i \<le> n. transientAt w rq (k' + i))
         \<longrightarrow> exhausted (openaiChatWithRetry w rq n k' j')
             \<and> snd (openaiChatWithRetry w rq n k' j') = backoffTrace w rq 0 j' n)
   \<and> (transientAt w rq k' \<longleftrightarrow> (\<exists>e. api w k' rq = Failure e \<and> retriable e))
   \<and> (retriable err \<longleftrightarrow>
         includesStr (errMessage err) (asc ''Request timed out'')
         \<or> includesStr (errMessage err) (asc ''APIConnectionTimeoutError'')
         \<or> includesStr (errMessage err) (asc ''ETIMEDOUT'')
         \<or> includesStr (errMessage err) (asc ''ECONNRESET'')
         \<or> includesStr (errMessage err) (asc ''ENOTFOUND'')
         \<or> (\<exists>st. errStatus err = Some st \<and> 500 \<le> st \<and> st < 600))"
proof (intro conjI)
  show "askOpenAIForLaborHelp w True q Detailed k j =
     (if \<not> exhausted (detailedChain1 w q k j)
        then (answerOf (projr (fst (detailedChain1 w q k j))), snd (detailedChain1 w q k j))
      else if \<not> exhausted (detailedChain2 w q k j)
        then (answerOf (projr (fst (detailedChain2 w q k j))),
              snd (detailedChain1 w q k j) @ snd (detailedChain2 w q k j))
      else if \<not> exhausted (detailedChain3 w q k j)
        then (answerOf (projr (fst (detailedChain3 w q k j))),
              snd (detailedChain1 w q k j) @ snd (detailedChain2 w q k j)
              @ snd (detailedChain3 w q k j))
      else (None, snd (detailedChain1 w q k j) @ snd (detailedChain2 w q k j)
                  @ snd (detailedChain3 w q k j)))"
    by (rule ladder_eq)
  show "firstTry Detailed q =
       \<lparr>systemMode = Detailed, question = q, maxTokens = 900, timeoutMs = 12000,
        logLabel = asc ''detailed#1''\<rparr>"
    by (rule tier_requests)
  show "detailedRetry q =
       \<lparr>systemMode = Detailed, question = q, maxTokens = 600, timeoutMs = 10000,
        logLabel = asc ''detailed#2''\<rparr>"
    by (rule tier_requests)
  show "conciseFallback q =
       \<lparr>systemMode = Concise, question = q, maxTokens = 320, timeoutMs = 9000,
        logLabel = asc ''concise#fallback''\<rparr>"
    by (rule tier_requests)
  show "systemMode (detailedRetry q) = systemMode (firstTry Detailed q)"
    by (simp add: tier_requests)
  show "maxTokens (detailedRetry q) < maxTokens (firstTry Detailed q)"
    by (simp add: tier_requests)
  show "systemMode (conciseFallback q) = Concise"
    by (simp add: tier_requests)
  show "maxTokens (conciseFallback q) < maxTokens (detailedRetry q)"
    by (simp add: tier_requests)
  show "detailedChain1 w q k j =
       openaiChatWithRetry w
         \<lparr>systemMode = Detailed, question = q, maxTokens = 900, timeoutMs = 12000,
          logLabel = asc ''detailed#1''\<rparr> 1 k j"
    by (simp only: detailedChain1_def tier_requests)
  show "detailedChain2 w q k j =
       openaiChatWithRetry w
         \<lparr>systemMode = Detailed, question = q, maxTokens = 600, timeoutMs = 10000,
          logLabel = asc ''detailed#2''\<rparr> 1
         (k + calls (snd (detailedChain1 w q k j))) (j + waits (snd (detailedChain1 w q k j)))"
    by (simp only: detailedChain2_def tier_requests)
  show "detailedChain3 w q k j =
       openaiChatWithRetry w
         \<lparr>systemMode = Concise, question = q, maxTokens = 320, timeoutMs = 9000,
          logLabel = asc ''concise#fallback''\<rparr> 1
         (k + calls (snd (detailedChain1 w q k j) @ snd (detailedChain2 w q k j)))
         (j + waits (snd (detailedChain1 w q k j) @ snd (detailedChain2 w q k j)))"
    by (simp only: detailedChain3_def tier_requests)
  show "\<exists>m \<le> 1. snd (detailedChain1 w q k j) =
         backoffTrace w
           \<lparr>systemMode = Detailed, question = q, maxTokens = 900, timeoutMs = 12000,
            logLabel = asc ''detailed#1''\<rparr> 0 j m"
    unfolding detailedChain1_def tier_requests by (rule chain_bound)
  show "\<exists>m \<le> 1. snd (detailedChain2 w q k j) =
         backoffTrace w
           \<lparr>systemMode = Detailed, question = q, maxTokens = 600, timeoutMs = 10000,
            logLabel = asc ''detailed#2''\<rparr> 0 (j + waits (snd (detailedChain1 w q k j))) m"
    unfolding detailedChain2_def tier_requests by (rule chain_bound)
  show "\<exists>m \<le> 1. snd (detailedChain3 w q k j) =
         backoffTrace w
           \<lparr>systemMode = Concise, question = q, maxTokens = 320, timeoutMs = 9000,
            logLabel = asc ''concise#fallback''\<rparr> 0
           (j + waits (snd (detailedChain1 w q k j) @ snd (detailedChain2 w q k j))) m"
    unfolding detailedChain3_def tier_requests by (rule chain_bound)
  show "\<exists>m \<le> n. snd (openaiChatWithRetry w rq n k' j') = backoffTrace w rq 0 j' m
         \<and> (\<forall>i < m. transientAt w rq (k' + i))
         \<and> (exhausted (openaiChatWithRetry w rq n k' j')
              \<longleftrightarrow> (\<exists>e. api w (k' + m) rq = Failure e))
         \<and> (exhausted (openaiChatWithRetry w rq n k' j')
              \<longrightarrow> m = n \<or> \<not> transientAt w rq (k' + m))"
    by (rule engine)
  show "\<forall>e. api w k' rq = Failure e \<and> \<not> retriable e
         \<longrightarrow> openaiChatWithRetry w rq n k' j' = (Inl e, [Call rq])"
    using no_retry [of w k' rq _ n j'] by blast
  show "(\<forall>i \<le> n. transientAt w rq (k' + i))
         \<longrightarrow> exhausted (openaiChatWithRetry w rq n k' j')
             \<and> snd (openaiChatWithRetry w rq n k' j') = backoffTrace w rq 0 j' n"
    using all_retries [of n w rq k' j'] by blast
  show "transientAt w rq k' \<longleftrightarrow> (\<exists>e. api w k' rq = Failure e \<and> retriable e)"
    by (simp add: transientAt_def split: api_reply.splits)
  show "retriable err \<longleftrightarrow>
         includesStr (errMessage err) (asc ''Request timed out'')
         \<or> includesStr (errMessage err) (asc ''APIConnectionTimeoutError'')
         \<or> includesStr (errMessage err) (asc ''ETIMEDOUT'')
         \<or> includesStr (errMessage err) (asc ''ECONNRESET'')
         \<or> includesStr (errMessage err) (asc ''ENOTFOUND'')
         \<or> (\<exists>st. errStatus err = Some st \<and> 500 \<le> st \<and> st < 600)"
    by (cases "errStatus err") (simp_all add: retriable_def Let_def)
qed

lemma auth_chain:
  "openaiChatWithRetry (alwaysFails authError jit) rq n k j = (Inl authError, [Call rq])"
proof (rule no_retry)
  show "api (alwaysFails authError jit) k rq = Failure authError" by (simp add: alwaysFails_def)
  show "\<not> retriable authError"
    by (simp add: retriable_def authError_def asc_def)
qed

lemma timeout_retriable: "retriable timeoutError"
  by (simp add: retriable_def timeoutError_def asc_def)

lemma timeout_chain:
  "openaiChatWithRetry (alwaysFails timeoutError jit) rq (Suc 0) k j
     = (Inl timeoutError, [Call rq, Wait (1000 + jit j), Call rq])"
proof -
  let ?w = "alwaysFails timeoutError jit"
  have f: "api ?w k rq = Failure timeoutError" for k by (simp add: alwaysFails_def)
  have "chatLoop ?w rq 1 1 (k + 1) (j + 1) = (Inl timeoutError, [Call rq])"
    using f by (rule chatLoop_stop) simp
  moreover have "chatLoop ?w rq 1 0 k j
      = (fst (chatLoop ?w rq 1 (0 + 1) (k + 1) (j + 1)),
         Call rq # Wait (1000 * 2 ^ 0 + jitter ?w j) # snd (chatLoop ?w rq 1 (0 + 1) (k + 1) (j + 1)))"
    using f timeout_retriable by (rule chatLoop_retry) simp
  ultimately show ?thesis
    by (simp add: openaiChatWithRetry_def alwaysFails_def)
qed

theorem askOpenAI_detailed_ladder_witness:
  "askOpenAIForLaborHelp (alwaysFails authError (\<lambda>j. 0)) True (asc ''q'') Detailed 0 0
     = (None,
        [Call \<lparr>systemMode = Detailed, question = asc ''q'', maxTokens = 900, timeoutMs = 12000,
               logLabel = asc ''detailed#1''\<rparr>,
         Call \<lparr>systemMode = Detailed, question = asc ''q'', maxTokens = 600, timeoutMs = 10000,
               logLabel = asc ''detailed#2''\<rparr>,
         Call \<lparr>systemMode = Concise, question = asc ''q'', maxTokens = 320, timeoutMs = 9000,
               logLabel = asc ''concise#fallback''\<rparr>])
   \<and> askOpenAIForLaborHelp (alwaysFails timeoutError (\<lambda>j. 50 + j)) True (asc ''q'') Detailed 0 0
     = (None,
        [Call \<lparr>systemMode = Detailed, question = asc ''q'', maxTokens = 900, timeoutMs = 12000,
               logLabel = asc ''detailed#1''\<rparr>,
         Wait 1050,
         Call \<lparr>systemMode = Detailed, question = asc ''q'', maxTokens = 900, timeoutMs = 12000,
               logLabel = asc ''detailed#1''\<rparr>,
         Call \<lparr>systemMode = Detailed, question = asc ''q'', maxTokens = 600, timeoutMs = 10000,
               logLabel = asc ''detailed#2''\<rparr>,
         Wait 1051,
         Call \<lparr>systemMode = Detailed, question = asc ''q'', maxTokens = 600, timeoutMs = 10000,
               logLabel = asc ''detailed#2''\<rparr>,
         Call \<lparr>systemMode = Concise, question = asc ''q'', maxTokens = 320, timeoutMs = 9000,
               logLabel = asc ''concise#fallback''\<rparr>,
         Wait 1052,
         Call \<lparr>systemMode = Concise, question = asc ''q'', maxTokens = 320, timeoutMs = 9000,
               logLabel = asc ''concise#fallback''\<rparr>])"
proof -
  let ?a = "alwaysFails authError (\<lambda>j. 0)"
  let ?t = "alwaysFails timeoutError (\<lambda>j. 50 + j)"
  let ?q = "asc ''q''"
  let ?r1 = "\<lparr>systemMode = Detailed, question = ?q, maxTokens = 900, timeoutMs = 12000,
               logLabel = asc ''detailed#1''\<rparr>"
  let ?r2 = "\<lparr>systemMode = Detailed, question = ?q, maxTokens = 600, timeoutMs = 10000,
               logLabel = asc ''detailed#2''\<rparr>"
  let ?r3 = "\<lparr>systemMode = Concise, question = ?q, maxTokens = 320, timeoutMs = 9000,
               logLabel = asc ''concise#fallback''\<rparr>"
  note la = askOpenAI_detailed_ladder [of ?a ?q 0 0]
  note lt = askOpenAI_detailed_ladder [of ?t ?q 0 0]
  have a1: "detailedChain1 ?a ?q 0 0 = (Inl authError, [Call ?r1])"
    using la by (simp only: auth_chain)
  have a2: "detailedChain2 ?a ?q 0 0 = (Inl authError, [Call ?r2])"
    using la by (simp only: auth_chain)
  have a3: "detailedChain3 ?a ?q 0 0 = (Inl authError, [Call ?r3])"
    using la by (simp only: auth_chain)
  have t1: "detailedChain1 ?t ?q 0 0 = (Inl timeoutError, [Call ?r1, Wait 1050, Call ?r1])"
    using lt by (simp add: timeout_chain)
  have t2: "detailedChain2 ?t ?q 0 0 = (Inl timeoutError, [Call ?r2, Wait 1051, Call ?r2])"
    using lt by (simp add: t1 timeout_chain calls_def waits_def)
  have t3: "detailedChain3 ?t ?q 0 0 = (Inl timeoutError, [Call ?r3, Wait 1052, Call ?r3])"
    using lt by (simp add: t1 t2 timeout_chain calls_def waits_def)
  have "askOpenAIForLaborHelp ?a True ?q Detailed 0 0 = (None, [Call ?r1, Call ?r2, Call ?r3])"
    using la by (simp add: a1 a2 a3 exhausted_def)
  moreover have "askOpenAIForLaborHelp ?t True ?q Detailed 0 0
     = (None, [Call ?r1, Wait 1050, Call ?r1, Call ?r2, Wait 1051, Call ?r2,
               Call ?r3, Wait 1052, Call ?r3])"
    using lt by (simp add: t1 t2 t3 exhausted_def)
  ultimately show ?thesis by (rule conjI)
qed


subsection \<open>Intent resolver\<close>

lemma trim_split:
  "\<exists>ws1 ws2. s = ws1 @ trim s @ ws2 \<and> list_all isSpace ws1 \<and> list_all isSpace ws2"
proof -
  define d where "d = dropWhile isSpace s"
  have 1: "s = takeWhile isSpace s @ d" by (simp add: d_def)
  have "d = rev (dropWhile isSpace (rev d)) @ rev (takeWhile isSpace (rev d))"
    by (metis rev_append rev_rev_ident takeWhile_dropWhile_id)
  then have 2: "d = trim s @ rev (takeWhile isSpace (rev d))"
    by (simp only: trim_def d_def)
  have "list_all isSpace (takeWhile isSpace s)"
    and "list_all isSpace (rev (takeWhile isSpace (rev d)))"
    by (auto simp: list_all_iff dest: set_takeWhileD)
  with 1 2 show ?thesis by metis
qed

lemma toLowerCase_append: "toLowerCase (a @ b) = toLowerCase a @ toLowerCase b"
  by (simp add: toLowerCase_def)

lemma stripSpaces_append: "stripSpaces (a @ b) = stripSpaces a @ stripSpaces b"
  by (simp add: stripSpaces_def)

lemma lowerUnit_space: "isSpace c \<Longrightarrow> lowerUnit c = [c]"
  by (auto simp: isSpace_def lowerUnit_def)

lemma strip_lower_spaces: "list_all isSpace ws \<Longrightarrow> stripSpaces (toLowerCase ws) = []"
  by (induction ws) (auto simp: toLowerCase_def stripSpaces_def lowerUnit_space)

lemma normalize_trim: "normalize s = stripSpaces (toLowerCase (trim s))"
proof (cases "s = []")
  case True
  then show ?thesis by (simp add: normalize_def trim_def toLowerCase_def stripSpaces_def)
next
  case False
  from trim_split [of s] obtain ws1 ws2 where
    s: "s = ws1 @ trim s @ ws2" and w: "list_all isSpace ws1" "list_all isSpace ws2" by blast
  have "stripSpaces (toLowerCase s)
      = stripSpaces (toLowerCase ws1) @ stripSpaces (toLowerCase (trim s))
        @ stripSpaces (toLowerCase ws2)"
    by (subst s) (simp only: toLowerCase_append stripSpaces_append)
  with w False show ?thesis by (simp add: normalize_def strip_lower_spaces)
qed

lemma aiPrefixed_normalize:
  assumes "aiPrefixed t"
  shows "\<exists>r. normalize t = 0x61 # r"
proof -
  from assms obtain r where "toLowerCase (trim t) = asc ''ai/'' @ r \<or> toLowerCase (trim t) = asc ''ai+'' @ r"
    by (auto simp: aiPrefixed_def prefix_def)
  then have "normalize t = 0x61 # stripSpaces (tl (toLowerCase (trim t)))"
    unfolding normalize_trim by (auto simp: asc_def stripSpaces_def isSpace_def)
  then show ?thesis by blast
qed


lemma calculatorBranch_one: "calculatorBranch ev u n = Some acts \<Longrightarrow> length acts = 1"
  by (auto simp: calculatorBranch_def split: if_splits sum.splits)

lemma if_chain_one:
  fixes P1 P2 P3 P4 :: bool
  assumes "(if P1 then Some [a1] else if P2 then Some [a2] else if P3 then Some [a3]
            else if P4 then Some [a4] else None) = Some acts"
  shows "length acts = 1"
  using assms by (cases P1; cases P2; cases P3; cases P4) auto

lemma commandBranch_one: "commandBranch ev n = Some acts \<Longrightarrow> length acts = 1"
  unfolding commandBranch_def by (rule if_chain_one)

lemma articleBranch_one: "articleBranch b ev u = Some acts \<Longrightarrow> length acts = 1"
  by (auto simp: articleBranch_def Let_def split: option.splits if_splits)

lemma lookupBranch_one: "length (lookupBranch b ev u) = 1"
  by (simp add: lookupBranch_def Let_def split: option.splits)

lemma handleText_ai: "aiPrefixed t \<Longrightarrow> handleText b ev t = aiBranch b ev (trim t)"
  by (simp add: handleText_def aiPrefixed_def Let_def)

lemma handleText_rest:
  "\<not> aiPrefixed t \<Longrightarrow> handleText b ev t =
     (case calculatorBranch ev t (normalize t) of
        Some acts \<Rightarrow> acts
      | None \<Rightarrow>
          (case commandBranch ev (normalize t) of
             Some acts \<Rightarrow> acts
           | None \<Rightarrow>
               (case articleBranch b ev t of
                  Some acts \<Rightarrow> acts
                | None \<Rightarrow> lookupBranch b ev t)))"
  by (simp add: handleText_def aiPrefixed_def Let_def)

lemma handleText_one:
  assumes "\<not> aiPrefixed t"
  shows "length (handleText b ev t) = 1"
proof (cases "calculatorBranch ev t (normalize t)")
  case (Some acts)
  then show ?thesis using assms calculatorBranch_one [OF Some] by (simp add: handleText_rest)
next
  case c: None
  show ?thesis
  proof (cases "commandBranch ev (normalize t)")
    case (Some acts)
    then show ?thesis using assms c commandBranch_one [OF Some] by (simp add: handleText_rest)
  next
    case m: None
    show ?thesis
    proof (cases "articleBranch b ev t")
      case (Some acts)
      then show ?thesis using assms c m articleBranch_one [OF Some] by (simp add: handleText_rest)
    next
      case None
      then show ?thesis using assms c m by (simp add: handleText_rest lookupBranch_one)
    qed
  qed
qed

lemma handleText_command:
  assumes "\<not> aiPrefixed t" and "calculatorBranch ev t (normalize t) = None"
    and "commandBranch ev (normalize t) = Some acts"
  shows "handleText b ev t = acts"
  using assms by (simp add: handleText_rest)

lemma extract_none_iff:
  "extractArticleNumber query = None \<longleftrightarrow> \<not> hasArticlePhrase (stripSpaces query)"
proof -
  note ch = tryPatterns_char [OF patterns_good]
  have gen: "tryPatterns patterns s = None \<longleftrightarrow> \<not> hasArticlePhrase s" for s
    using ch [of s] no_match_iff [of s] by simp
  have "\<not> hasArticlePhrase []"
    by (simp add: hasArticlePhrase_def)
  then have "extractArticleNumber query = tryPatterns patterns (stripSpaces query)"
    using gen [of "[]"] by (simp add: extractArticleNumber_def stripSpaces_def)
  then show ?thesis using gen [of "stripSpaces query"] by simp
qed

lemma phrase_digit:
  assumes "hasArticlePhrase s"
  shows "\<exists>d \<in> set s. isAnyDigit d"
proof -
  have inc: "includesStr s p \<Longrightarrow> d \<in> set p \<Longrightarrow> d \<in> set s" for p d
    by (auto simp: includes_iff)
  from assms consider
      d where "isAnyDigit d"
        "includesStr s (lawFullName @ [d]) \<or> includesStr s (lawFullName @ [chDi, d])
         \<or> includesStr s (lawShortName @ [d]) \<or> includesStr s (lawShortName @ [chDi, d])"
    | g where "g \<noteq> []" "list_all isAnyDigit g" "includesStr s (chDi # g @ [chTiao])"
    unfolding hasArticlePhrase_def by blast
  then show ?thesis
  proof cases
    case 1
    from 1(2) have "d \<in> set s" by (auto intro: inc)
    with 1(1) show ?thesis by blast
  next
    case 2
    from 2(1) have "hd g \<in> set g" by simp
    then have "hd g \<in> set (chDi # g @ [chTiao])" by simp
    with 2(3) have "hd g \<in> set s" by (rule inc)
    moreover from 2(1,2) have "isAnyDigit (hd g)" by (cases g) simp_all
    ultimately show ?thesis by blast
  qed
qed

lemma digit_lower: "isAnyDigit d \<Longrightarrow> lowerUnit d = [d] \<and> \<not> isSpace d"
  by (auto simp: isAnyDigit_def isDigit_def isWideDigit_def lowerUnit_def isSpace_def)

lemma digit_normalize:
  assumes "d \<in> set (stripSpaces t)" and "isAnyDigit d"
  shows "d \<in> set (normalize t)"
proof -
  from assms(1) have d: "d \<in> set t" by (simp add: stripSpaces_def)
  then have "t \<noteq> []" by auto
  moreover have "d \<in> set (toLowerCase t)"
    using d digit_lower [OF assms(2)] by (auto simp: toLowerCase_def intro!: bexI [of _ d])
  ultimately show ?thesis
    using digit_lower [OF assms(2)] by (simp add: normalize_def stripSpaces_def)
qed

lemma command_no_article:
  assumes "\<forall>d \<in> set (normalize t). \<not> isAnyDigit d"
  shows "extractArticleNumber t = None"
proof (rule ccontr)
  assume "extractArticleNumber t \<noteq> None"
  then have "hasArticlePhrase (stripSpaces t)" by (simp add: extract_none_iff)
  from phrase_digit [OF this] obtain d where "d \<in> set (stripSpaces t)" "isAnyDigit d" by blast
  with digit_normalize [of d t] assms show False by blast
qed

lemma command_words:
  assumes "commandBranch ev n = Some acts"
  shows "n \<in> set (menuWords @ overtimeWords @ leaveWords @ resignWords)"
  using assms
  by (auto simp: commandBranch_def menuWords_def overtimeWords_def leaveWords_def resignWords_def
      split: if_splits)

lemma words_no_digit:
  assumes "n \<in> set (menuWords @ overtimeWords @ leaveWords @ resignWords)"
  shows "(\<forall>d \<in> set n. \<not> isAnyDigit d) \<and> n \<noteq> [] \<and> hd n \<noteq> 0x61 \<and> \<not> prefix otCommand n
     \<and> n \<noteq> [0x518D, 0x8A66, 0x4E00, 0x7B46]"
  using assms
  by (auto simp: menuWords_def overtimeWords_def leaveWords_def resignWords_def asc_def
      isAnyDigit_def isDigit_def isWideDigit_def otCommand_def)

lemma command_exclusive:
  assumes "commandBranch ev (normalize t) = Some acts"
  shows "\<not> aiPrefixed t \<and> calculatorBranch ev t (normalize t) = None
     \<and> extractArticleNumber t = None"
proof -
  note w = words_no_digit [OF command_words [OF assms]]
  have "\<not> aiPrefixed t"
    using w aiPrefixed_normalize [of t] by auto
  moreover have "calculatorBranch ev t (normalize t) = None"
    using w by (auto simp: calculatorBranch_def prefix_def)
  moreover have "extractArticleNumber t = None"
    using w by (intro command_no_article) simp
  ultimately show ?thesis by simp
qed

lemma aiBranch_explicit:
  "aiBranch b ev (trim t) =
     (if aiQuestionOf t = [] then [ReplyText (replyToken ev) AiNeedQuestion]
      else [ReplyText (replyToken ev) AiThinking,
            (case getSourceId ev of
               Some to \<Rightarrow> PushText to (aiBodyOf b t)
             | None \<Rightarrow> ReplyText (replyToken ev) (aiBodyOf b t))])"
proof -
  have body: "(if truthyStr r then AiAnswer d (the r) else AiFailed q)
      = (case r of None \<Rightarrow> AiFailed q | Some a \<Rightarrow> if a = [] then AiFailed q else AiAnswer d a)"
    for r d q
    by (cases r) simp_all
  have bd: "aiBodyOf b t =
      (if \<not> hasClient b then AiNoClient (aiQuestionOf t)
       else if truthyStr (askAi b (aiQuestionOf t) (if aiWantsDetail t then Detailed else Concise))
         then AiAnswer (aiWantsDetail t)
                (the (askAi b (aiQuestionOf t) (if aiWantsDetail t then Detailed else Concise)))
       else AiFailed (aiQuestionOf t))"
    by (simp add: aiBodyOf_def body)
  show ?thesis
    unfolding bd
    by (cases "getSourceId ev")
      (simp_all add: aiBranch_def aiQuestionOf_def aiWantsDetail_def aiRaw_def Let_def)
qed

lemma handleEvent_text:
  "replyToken ev \<noteq> verifyToken \<Longrightarrow> evType ev = Message (TextMessage (Some t))
     \<Longrightarrow> handleEvent b ev = handleText b ev t"
  by (simp add: handleEvent_def)

lemma handleEvent_message:
  "replyToken ev \<noteq> verifyToken \<Longrightarrow> evType ev = Message (TextMessage m)
     \<Longrightarrow> t = (case m of None \<Rightarrow> [] | Some x \<Rightarrow> x)
     \<Longrightarrow> handleEvent b ev = handleText b ev t"
  by (simp add: handleEvent_def)

lemma sample_token: "replyToken (sampleEvent t src) \<noteq> verifyToken"
proof
  assume "replyToken (sampleEvent t src) = verifyToken"
  then have "length (replyToken (sampleEvent t src)) = length verifyToken" by simp
  then show False by (simp add: sampleEvent_def verifyToken_def asc_def)
qed

text \<open>
  Claim C4, as stated, fails in two ways. On a message with the AI prefix and a question
  the handler replies an acknowledgement and then sends the body as a second message,
  pushed to the source when it is known and replied otherwise: two messages. On a text
  message that carries the reply token of the platform's verification event the handler
  sends nothing, whatever the text: no message.
\<close>

theorem handleEvent_ai_two_messages_counterexample:
  "handleEvent sampleBot
     (sampleEvent (asc ''ai/x'') (Some \<lparr>userId = Some (asc ''U1''), groupId = None, roomId = None\<rparr>))
     = [ReplyText (asc ''token-1'') AiThinking, PushText (asc ''U1'') (AiNoClient (asc ''x''))]
   \<and> handleEvent sampleBot (sampleEvent (asc ''ai/x'') None)
     = [ReplyText (asc ''token-1'') AiThinking, ReplyText (asc ''token-1'') (AiNoClient (asc ''x''))]
   \<and> handleEvent sampleBot
       \<lparr>replyToken = replicate 32 0x30, evType = Message (TextMessage (Some (asc ''help''))),
        evSource = None\<rparr> = []"
proof -
  have p: "aiPrefixed (asc ''ai/x'')"
    by (simp add: aiPrefixed_def trim_def toLowerCase_def lowerUnit_def isSpace_def asc_def)
  have t: "trim (asc ''ai/x'') = asc ''ai/x''"
    by (simp add: trim_def isSpace_def asc_def)
  have a: "aiBranch sampleBot (sampleEvent (asc ''ai/x'') src) (asc ''ai/x'')
      = [ReplyText (asc ''token-1'') AiThinking,
         (case getSourceId (sampleEvent (asc ''ai/x'') src) of
            Some to \<Rightarrow> PushText to (AiNoClient (asc ''x''))
          | None \<Rightarrow> ReplyText (asc ''token-1'') (AiNoClient (asc ''x'')))]" for src
    by (simp add: aiBranch_def sampleBot_def sampleEvent_def trim_def isSpace_def asc_def Let_def
        split: option.splits)
  have h: "handleEvent sampleBot (sampleEvent (asc ''ai/x'') src)
      = aiBranch sampleBot (sampleEvent (asc ''ai/x'') src) (asc ''ai/x'')" for src
    using handleEvent_text [OF sample_token, of "asc ''ai/x''" src "asc ''ai/x''" sampleBot]
      handleText_ai [OF p, of sampleBot "sampleEvent (asc ''ai/x'') src"]
    by (simp add: t sampleEvent_def)
  have v: "handleEvent sampleBot
       \<lparr>replyToken = replicate 32 0x30, evType = Message (TextMessage (Some (asc ''help''))),
        evSource = None\<rparr> = []"
    by (simp add: handleEvent_def verifyToken_def)
  show ?thesis
    unfolding h a v by (simp add: getSourceId_def sampleEvent_def asc_def)
qed

text \<open>
  Claim C4, amended, for a text message with text \<open>t\<close> (the empty text when the field
  is absent). A text message with the reply token of the verification event (32 zeros)
  gets no reply. For any other text message the handler takes the first branch that applies, in
  the order AI prefix, calculator commands, menu and category commands, article number,
  FAQ, article keywords, gateway, and the branch taken alone decides what is sent. The
  branch of the AI prefix sends one reply when the question is empty; when it is not, it
  sends exactly two messages: the acknowledgement as a reply, then the body, pushed to the
  source when its identifier is known and replied otherwise, the body being the notice
  that no client is configured, the answer of the gateway, or the notice of failure.
  Every other branch sends exactly one message. A text whose normalized form is a menu,
  help or category command gets that command's template, whatever the FAQ and the
  article tables hold; such a text has no AI prefix, is no calculator command and never
  contains an article reference, so the precedence of the commands over the article
  number has no instance. The calculator word and the word for one more calculation get
  the calculator form, and a text that starts with the calculator word and holds the
  word for help gets the calculator help. An article number goes before the FAQ match,
  the FAQ match before the keyword match, and the keyword match before the gateway.
\<close>

theorem handleEvent_priority:
  assumes "evType ev = Message (TextMessage m)"
    and "t = (case m of None \<Rightarrow> [] | Some x \<Rightarrow> x)"
  shows
    "(verifyToken = replicate 32 0x30
      \<and> otCommand = [0x8A66, 0x7B97, 0x52A0, 0x73ED, 0x8CBB]
      \<and> menuWords = [[0x529F, 0x80FD], asc ''help'', [0x4F7F, 0x7528, 0x8AAA, 0x660E]]
      \<and> overtimeWords = [[0x52A0, 0x73ED, 0x76F8, 0x95DC]]
      \<and> leaveWords = [[0x7279, 0x4F11, 0x76F8, 0x95DC], [0x4F11, 0x5047, 0x76F8, 0x95DC]]
      \<and> resignWords =
          [[0x96E2, 0x8077, 0x76F8, 0x95DC], [0x8CC7, 0x9063, 0x76F8, 0x95DC],
           [0x96E2, 0x8077, 0x8CC7, 0x9063, 0x76F8, 0x95DC]])
     \<and> (replyToken ev = verifyToken \<longrightarrow> handleEvent b ev = [])
     \<and> (replyToken ev \<noteq> verifyToken \<longrightarrow>
          (aiPrefixed t \<and> aiQuestionOf t = []
             \<longrightarrow> handleEvent b ev = [ReplyText (replyToken ev) AiNeedQuestion])
        \<and> (aiPrefixed t \<and> aiQuestionOf t \<noteq> []
             \<longrightarrow> handleEvent b ev =
                   [ReplyText (replyToken ev) AiThinking,
                    (case getSourceId ev of
                       Some to \<Rightarrow> PushText to (aiBodyOf b t)
                     | None \<Rightarrow> ReplyText (replyToken ev) (aiBodyOf b t))]
                 \<and> length (handleEvent b ev) = 2)
        \<and> (\<not> aiPrefixed t \<longrightarrow>
             length (handleEvent b ev) = 1
             \<and> (\<forall>acts. calculatorBranch ev t (normalize t) = Some acts
                   \<longrightarrow> handleEvent b ev = acts)
             \<and> (calculatorBranch ev t (normalize t) = None \<longrightarrow>
                  (\<forall>acts. commandBranch ev (normalize t) = Some acts
                     \<longrightarrow> handleEvent b ev = acts)
                  \<and> (commandBranch ev (normalize t) = None \<longrightarrow>
                       (\<forall>acts. articleBranch b ev t = Some acts \<longrightarrow> handleEvent b ev = acts)
                       \<and> (articleBranch b ev t = None \<longrightarrow>
                            (\<forall>f. findBestFaq (caseMap b) (botFaqs b) t = Some f
                               \<longrightarrow> handleEvent b ev = [ReplyText (replyToken ev) (FaqReply f)])
                            \<and> (findBestFaq (caseMap b) (botFaqs b) t = None \<longrightarrow>
                                 (\<forall>a. findArticleByKeyword (caseMap b) (botArticles b) t = Some a
                                    \<longrightarrow> handleEvent b ev
                                        = [ReplyText (replyToken ev) (KeywordArticle a)])
                                 \<and> (findArticleByKeyword (caseMap b) (botArticles b) t = None
                                    \<longrightarrow> handleEvent b ev
                                        = [ReplyText (replyToken ev)
                                             (if truthyStr (askAi b t Concise)
                                              then FallbackAi (the (askAi b t Concise))
                                              else FallbackGuide t)]))))))
        \<and> (normalize t \<in> set menuWords
             \<longrightarrow> handleEvent b ev = [ReplyFlex (replyToken ev) FunctionMenu])
        \<and> (normalize t \<in> set overtimeWords
             \<longrightarrow> handleEvent b ev = [ReplyText (replyToken ev) OvertimeExamples])
        \<and> (normalize t \<in> set leaveWords
             \<longrightarrow> handleEvent b ev = [ReplyText (replyToken ev) LeaveExamples])
        \<and> (normalize t \<in> set resignWords
             \<longrightarrow> handleEvent b ev = [ReplyText (replyToken ev) ResignExamples])
        \<and> (normalize t \<in> set (menuWords @ overtimeWords @ leaveWords @ resignWords)
             \<longrightarrow> \<not> aiPrefixed t \<and> calculatorBranch ev t (normalize t) = None
                 \<and> extractArticleNumber t = None \<and> articleBranch b ev t = None)
        \<and> (normalize t = otCommand \<or> normalize t = [0x518D, 0x8A66, 0x4E00, 0x7B46]
             \<longrightarrow> handleEvent b ev = [ReplyFlex (replyToken ev) OtFlex])
        \<and> (prefix otCommand (normalize t) \<and> normalize t \<noteq> otCommand
               \<and> includesStr (normalize t) [0x8AAA, 0x660E]
             \<longrightarrow> handleEvent b ev = [ReplyText (replyToken ev) OtHelp]))"
    (is "?P \<and> ?V \<and> (_ \<longrightarrow> ?A1 \<and> ?A2 \<and> (_ \<longrightarrow> ?NL \<and> ?N2) \<and> ?M \<and> ?O \<and> ?L \<and> ?R \<and> ?X
           \<and> ?C1 \<and> ?C2)")
proof (rule conjI [OF _ conjI])
  let ?N = "\<not> aiPrefixed t \<longrightarrow> ?NL \<and> ?N2"
  show ?P
    by (simp add: verifyToken_def otCommand_def menuWords_def overtimeWords_def leaveWords_def
        resignWords_def)
  show ?V
    by (simp add: handleEvent_def)
  show "replyToken ev \<noteq> verifyToken \<longrightarrow>
      (?A1 \<and> ?A2 \<and> ?N \<and> ?M \<and> ?O \<and> ?L \<and> ?R \<and> ?X \<and> ?C1 \<and> ?C2)"
  proof
    assume tok: "replyToken ev \<noteq> verifyToken"
    note h = handleEvent_message [OF tok assms, of b]
    have a1: ?A1
      unfolding h by (simp add: handleText_ai aiBranch_explicit)
    have a2: ?A2
      unfolding h by (simp add: handleText_ai aiBranch_explicit)
    have n: ?N
    proof
      assume na: "\<not> aiPrefixed t"
      have "?NL" unfolding h using na by (rule handleText_one)
      moreover have "?N2"
        unfolding h using na by (simp add: handleText_rest lookupBranch_def Let_def)
      ultimately show "?NL \<and> ?N2" ..
    qed
    have cmd: "handleEvent b ev = acts \<and> \<not> aiPrefixed t
        \<and> calculatorBranch ev t (normalize t) = None
        \<and> extractArticleNumber t = None \<and> articleBranch b ev t = None"
      if "commandBranch ev (normalize t) = Some acts" for acts
    proof -
      note e = command_exclusive [OF that]
      have "handleText b ev t = acts"
        using e that by (intro handleText_command) simp_all
      moreover have "articleBranch b ev t = None"
        using e by (simp add: articleBranch_def)
      ultimately show ?thesis using e by (simp add: h)
    qed
    have m: ?M
      using cmd [of "[ReplyFlex (replyToken ev) FunctionMenu]"]
      by (auto simp: commandBranch_def menuWords_def)
    have o: ?O
      using cmd [of "[ReplyText (replyToken ev) OvertimeExamples]"]
      by (auto simp: commandBranch_def overtimeWords_def asc_def)
    have l: ?L
      using cmd [of "[ReplyText (replyToken ev) LeaveExamples]"]
      by (auto simp: commandBranch_def leaveWords_def asc_def)
    have r: ?R
      using cmd [of "[ReplyText (replyToken ev) ResignExamples]"]
      by (auto simp: commandBranch_def resignWords_def asc_def)
    have x: ?X
    proof
      assume "normalize t \<in> set (menuWords @ overtimeWords @ leaveWords @ resignWords)"
      then have "commandBranch ev (normalize t) \<noteq> None"
        by (auto simp: commandBranch_def menuWords_def overtimeWords_def leaveWords_def
            resignWords_def asc_def)
      then obtain acts where "commandBranch ev (normalize t) = Some acts" by blast
      from cmd [OF this] show "\<not> aiPrefixed t \<and> calculatorBranch ev t (normalize t) = None
            \<and> extractArticleNumber t = None \<and> articleBranch b ev t = None" by simp
    qed
    have calc: "handleEvent b ev = acts"
      if "normalize t \<noteq> []" "hd (normalize t) \<noteq> 0x61"
        "calculatorBranch ev t (normalize t) = Some acts" for acts
    proof -
      from that(1,2) have "\<not> aiPrefixed t" using aiPrefixed_normalize [of t] by auto
      with that(3) show ?thesis unfolding h by (simp add: handleText_rest)
    qed
    have c1: ?C1
    proof
      assume a: "normalize t = otCommand \<or> normalize t = [0x518D, 0x8A66, 0x4E00, 0x7B46]"
      then have "calculatorBranch ev t (normalize t) = Some [ReplyFlex (replyToken ev) OtFlex]"
        by (auto simp: calculatorBranch_def otCommand_def)
      moreover from a have "normalize t \<noteq> []" "hd (normalize t) \<noteq> 0x61"
        by (auto simp: otCommand_def)
      ultimately show "handleEvent b ev = [ReplyFlex (replyToken ev) OtFlex]"
        by (intro calc)
    qed
    have c2: ?C2
    proof
      assume a: "prefix otCommand (normalize t) \<and> normalize t \<noteq> otCommand
          \<and> includesStr (normalize t) [0x8AAA, 0x660E]"
      then have "calculatorBranch ev t (normalize t) = Some [ReplyText (replyToken ev) OtHelp]"
        by (simp add: calculatorBranch_def)
      moreover from a have "normalize t \<noteq> []" "hd (normalize t) \<noteq> 0x61"
        by (auto simp: otCommand_def prefix_def)
      ultimately show "handleEvent b ev = [ReplyText (replyToken ev) OtHelp]"
        by (intro calc)
    qed
    from a1 a2 n m o l r x c1 c2
    show "?A1 \<and> ?A2 \<and> ?N \<and> ?M \<and> ?O \<and> ?L \<and> ?R \<and> ?X \<and> ?C1 \<and> ?C2"
      by (intro conjI)
  qed
qed

lemma sample_type: "evType (sampleEvent t src) = Message (TextMessage (Some t))"
  by (simp add: sampleEvent_def)

lemma sample_text: "t = (case Some t of None \<Rightarrow> [] | Some x \<Rightarrow> x)"
  by simp

lemma sample_reply: "replyToken (sampleEvent t src) = asc ''token-1''"
  by (simp add: sampleEvent_def)

lemmas handler_defs = aiPrefixed_def aiQuestionOf_def aiWantsDetail_def aiRaw_def aiBodyOf_def
  normalize_def trim_def toLowerCase_def lowerUnit_def stripSpaces_def isSpace_def asc_def
  calculatorBranch_def commandBranch_def otCommand_def

theorem handleEvent_priority_witness:
  "findBestFaq toLowerCase sampleFaqs [0x20, 0x52A0, 0x73ED, 0x20, 0x76F8, 0x95DC, 0x3000]
     = Some (sampleFaqs ! 0)
   \<and> extractArticleNumber [0x20, 0x52A0, 0x73ED, 0x20, 0x76F8, 0x95DC, 0x3000] = None
   \<and> handleEvent sampleBot
        (sampleEvent [0x20, 0x52A0, 0x73ED, 0x20, 0x76F8, 0x95DC, 0x3000] None)
       = [ReplyText (asc ''token-1'') OvertimeExamples]
   \<and> handleEvent sampleBot (sampleEvent (asc ''ai/ '') None)
       = [ReplyText (asc ''token-1'') AiNeedQuestion]
   \<and> handleEvent sampleBot
        (sampleEvent (asc ''AI+x'')
           (Some \<lparr>userId = Some (asc ''U1''), groupId = Some (asc ''G1''), roomId = None\<rparr>))
       = [ReplyText (asc ''token-1'') AiThinking, PushText (asc ''U1'') (AiNoClient (asc ''x''))]
   \<and> handleEvent sampleBot
        ((sampleEvent (asc ''help'') None)\<lparr>replyToken := replicate 32 0x30\<rparr>) = []
   \<and> handleEvent sampleBot (sampleEvent (asc '' Help '') None)
       = [ReplyFlex (asc ''token-1'') FunctionMenu]
   \<and> handleEvent sampleBot (sampleEvent [0x8A66, 0x7B97, 0x52A0, 0x73ED, 0x8CBB] None)
       = [ReplyFlex (asc ''token-1'') OtFlex]
   \<and> findArticleByKeyword toLowerCase sampleArticles
        (lawShortName @ [chDi] @ asc ''38'' @ [chTiao] @ asc '' overtime'')
       = Some (sampleArticles ! 0)
   \<and> handleEvent sampleBot
        (sampleEvent (lawShortName @ [chDi] @ asc ''38'' @ [chTiao] @ asc '' overtime'') None)
       = [ReplyText (asc ''token-1'') (ArticleReply 38 (sampleArticles ! 2))]
   \<and> handleEvent sampleBot (sampleEvent (asc ''Overtime Pay'') None)
       = [ReplyText (asc ''token-1'') (KeywordArticle (sampleArticles ! 1))]
   \<and> handleEvent sampleBot
        \<lparr>replyToken = asc ''token-1'', evType = Message (TextMessage None), evSource = None\<rparr>
       = [ReplyText (asc ''token-1'') (FallbackGuide [])]"
proof -
  let ?t1 = "[0x20, 0x52A0, 0x73ED, 0x20, 0x76F8, 0x95DC, 0x3000] :: jsstring"
  let ?t5 = "lawShortName @ [chDi] @ asc ''38'' @ [chTiao] @ asc '' overtime''"
  let ?t6 = "asc ''Overtime Pay''"
  let ?g = "Some \<lparr>userId = Some (asc ''U1''), groupId = Some (asc ''G1''), roomId = None\<rparr>"
  let ?v = "(sampleEvent (asc ''help'') None)\<lparr>replyToken := replicate 32 0x30\<rparr>"
  let ?t7 = "asc '' Help ''"
  let ?t8 = "[0x8A66, 0x7B97, 0x52A0, 0x73ED, 0x8CBB] :: jsstring"
  note T1 = handleEvent_priority [where ev = "sampleEvent ?t1 None" and t = ?t1 and b = sampleBot,
      OF sample_type sample_text, THEN conjunct2, THEN conjunct2, THEN mp, OF sample_token]
  note T2 = handleEvent_priority [where ev = "sampleEvent (asc ''ai/ '') None"
      and t = "asc ''ai/ ''" and b = sampleBot,
      OF sample_type sample_text, THEN conjunct2, THEN conjunct2, THEN mp, OF sample_token]
  note T3 = handleEvent_priority [where ev = "sampleEvent (asc ''AI+x'') ?g"
      and t = "asc ''AI+x''" and b = sampleBot,
      OF sample_type sample_text, THEN conjunct2, THEN conjunct2, THEN mp, OF sample_token]
  note T4 = handleEvent_priority [where ev = ?v and t = "asc ''help''" and b = sampleBot
      and m = "Some (asc ''help'')", THEN conjunct2, THEN conjunct1, THEN mp]
  note T5 = handleEvent_priority [where ev = "sampleEvent ?t5 None" and t = ?t5 and b = sampleBot,
      OF sample_type sample_text, THEN conjunct2, THEN conjunct2, THEN mp, OF sample_token]
  note T6 = handleEvent_priority [where ev = "sampleEvent ?t6 None" and t = ?t6 and b = sampleBot,
      OF sample_type sample_text, THEN conjunct2, THEN conjunct2, THEN mp, OF sample_token]

  have f1: "findBestFaq toLowerCase sampleFaqs ?t1 = Some (sampleFaqs ! 0)"
    by (simp add: sampleFaqs_def lookup_defs)
  have n1: "normalize ?t1 = [0x52A0, 0x73ED, 0x76F8, 0x95DC]"
    by (simp add: normalize_def toLowerCase_def lowerUnit_def stripSpaces_def isSpace_def)
  have "handleEvent sampleBot (sampleEvent ?t1 None)
      = [ReplyText (replyToken (sampleEvent ?t1 None)) OvertimeExamples]"
    by (rule T1 [THEN conjunct2, THEN conjunct2, THEN conjunct2, THEN conjunct2, THEN conjunct1,
          THEN mp])
      (simp add: n1 overtimeWords_def)
  then have one: "handleEvent sampleBot (sampleEvent ?t1 None)
      = [ReplyText (asc ''token-1'') OvertimeExamples]"
    by (simp only: sample_reply)
  have "normalize ?t1 \<in> set (menuWords @ overtimeWords @ leaveWords @ resignWords)"
    by (simp add: n1 overtimeWords_def)
  from T1 [THEN conjunct2, THEN conjunct2, THEN conjunct2, THEN conjunct2, THEN conjunct2,
      THEN conjunct2, THEN conjunct2, THEN conjunct1, THEN mp, OF this]
  have x1: "extractArticleNumber ?t1 = None" by simp

  have "aiPrefixed (asc ''ai/ '') \<and> aiQuestionOf (asc ''ai/ '') = []"
    by (simp add: handler_defs)
  from T2 [THEN conjunct1, THEN mp, OF this]
  have two: "handleEvent sampleBot (sampleEvent (asc ''ai/ '') None)
      = [ReplyText (asc ''token-1'') AiNeedQuestion]"
    by (simp only: sample_reply)

  have q3: "aiPrefixed (asc ''AI+x'') \<and> aiQuestionOf (asc ''AI+x'') \<noteq> []"
    by (simp add: handler_defs)
  have b3: "aiBodyOf sampleBot (asc ''AI+x'') = AiNoClient (asc ''x'')"
    by (simp add: handler_defs sampleBot_def)
  have s3: "getSourceId (sampleEvent (asc ''AI+x'') ?g) = Some (asc ''U1'')"
    by (simp add: getSourceId_def sampleEvent_def asc_def)
  from T3 [THEN conjunct2, THEN conjunct1, THEN mp, OF q3, THEN conjunct1]
  have three: "handleEvent sampleBot (sampleEvent (asc ''AI+x'') ?g)
      = [ReplyText (asc ''token-1'') AiThinking, PushText (asc ''U1'') (AiNoClient (asc ''x''))]"
    by (simp add: b3 s3 sample_reply)

  have four: "handleEvent sampleBot ?v = []"
    by (rule T4) (simp_all add: sampleEvent_def verifyToken_def)

  note T7 = handleEvent_priority [where ev = "sampleEvent ?t7 None" and t = ?t7 and b = sampleBot,
      OF sample_type sample_text, THEN conjunct2, THEN conjunct2, THEN mp, OF sample_token]
  have "normalize ?t7 \<in> set menuWords"
    by (simp add: handler_defs menuWords_def)
  from T7 [THEN conjunct2, THEN conjunct2, THEN conjunct2, THEN conjunct1, THEN mp, OF this]
  have seven: "handleEvent sampleBot (sampleEvent ?t7 None)
      = [ReplyFlex (asc ''token-1'') FunctionMenu]"
    by (simp only: sample_reply)

  note T8 = handleEvent_priority [where ev = "sampleEvent ?t8 None" and t = ?t8 and b = sampleBot,
      OF sample_type sample_text, THEN conjunct2, THEN conjunct2, THEN mp, OF sample_token]
  have "normalize ?t8 = otCommand \<or> normalize ?t8 = [0x518D, 0x8A66, 0x4E00, 0x7B46]"
    by (simp add: handler_defs)
  from T8 [THEN conjunct2, THEN conjunct2, THEN conjunct2, THEN conjunct2, THEN conjunct2,
      THEN conjunct2, THEN conjunct2, THEN conjunct2, THEN conjunct1, THEN mp, OF this]
  have eight: "handleEvent sampleBot (sampleEvent ?t8 None)
      = [ReplyFlex (asc ''token-1'') OtFlex]"
    by (simp only: sample_reply)

  have k5: "findArticleByKeyword toLowerCase sampleArticles ?t5 = Some (sampleArticles ! 0)"
    by (simp add: sampleArticles_def lookup_defs lawShortName_def chDi_def chTiao_def)
  have p5: "\<not> aiPrefixed ?t5"
    by (simp add: handler_defs lawShortName_def chDi_def chTiao_def)
  have c5: "calculatorBranch (sampleEvent ?t5 None) ?t5 (normalize ?t5) = None"
    by (simp add: handler_defs lawShortName_def chDi_def chTiao_def)
  have m5: "commandBranch (sampleEvent ?t5 None) (normalize ?t5) = None"
    by (simp add: handler_defs lawShortName_def chDi_def chTiao_def)
  have e5: "extractArticleNumber ?t5 = Some 38"
    by (simp add: extract_defs)
  have a5: "articleBranch sampleBot (sampleEvent ?t5 None) ?t5
      = Some [ReplyText (asc ''token-1'') (ArticleReply 38 (sampleArticles ! 2))]"
    unfolding articleBranch_def e5
    by (simp add: findArticleByNumber_def sampleBot_def sampleArticles_def sample_reply)
  note N5 = T5 [THEN conjunct2, THEN conjunct2, THEN conjunct1, THEN mp, OF p5, THEN conjunct2,
      THEN conjunct2, THEN mp, OF c5, THEN conjunct2, THEN mp, OF m5]
  have five: "handleEvent sampleBot (sampleEvent ?t5 None)
      = [ReplyText (asc ''token-1'') (ArticleReply 38 (sampleArticles ! 2))]"
    by (rule N5 [THEN conjunct1, THEN spec, THEN mp, OF a5])

  have k6: "findArticleByKeyword (caseMap sampleBot) (botArticles sampleBot) ?t6
      = Some (sampleArticles ! 1)"
    by (simp add: sampleBot_def sampleArticles_def lookup_defs)
  have f6: "findBestFaq (caseMap sampleBot) (botFaqs sampleBot) ?t6 = None"
    by (simp add: sampleBot_def sampleFaqs_def lookup_defs)
  have p6: "\<not> aiPrefixed ?t6" by (simp add: handler_defs)
  have c6: "calculatorBranch (sampleEvent ?t6 None) ?t6 (normalize ?t6) = None"
    by (simp add: handler_defs)
  have m6: "commandBranch (sampleEvent ?t6 None) (normalize ?t6) = None"
    by (simp add: handler_defs)
  have e6: "extractArticleNumber ?t6 = None"
    by (simp add: extract_defs)
  have a6: "articleBranch sampleBot (sampleEvent ?t6 None) ?t6 = None"
    unfolding articleBranch_def e6 by simp
  note N6 = T6 [THEN conjunct2, THEN conjunct2, THEN conjunct1, THEN mp, OF p6, THEN conjunct2,
      THEN conjunct2, THEN mp, OF c6, THEN conjunct2, THEN mp, OF m6]
  from N6 [THEN conjunct2, THEN mp, OF a6, THEN conjunct2, THEN mp, OF f6, THEN conjunct1,
      THEN spec, THEN mp, OF k6]
  have six: "handleEvent sampleBot (sampleEvent ?t6 None)
      = [ReplyText (asc ''token-1'') (KeywordArticle (sampleArticles ! 1))]"
    by (simp only: sample_reply)

  let ?e9 = "\<lparr>replyToken = asc ''token-1'', evType = Message (TextMessage None), evSource = None\<rparr>"
  have tok9: "replyToken ?e9 \<noteq> verifyToken"
    using sample_token [of "[]" None] by (simp add: sampleEvent_def)
  note T9 = handleEvent_priority [where ev = ?e9 and t = "[]" and b = sampleBot and m = None,
      THEN conjunct2, THEN conjunct2, THEN mp, OF _ _ tok9]
  have p9: "\<not> aiPrefixed []" by (simp add: handler_defs)
  have c9: "calculatorBranch ?e9 [] (normalize []) = None" by (simp add: handler_defs)
  have m9: "commandBranch ?e9 (normalize []) = None" by (simp add: handler_defs)
  have a9: "articleBranch sampleBot ?e9 [] = None"
    by (simp add: articleBranch_def extractArticleNumber_def)
  have f9: "findBestFaq (caseMap sampleBot) (botFaqs sampleBot) [] = None"
    by (simp add: findBestFaq_def)
  have k9: "findArticleByKeyword (caseMap sampleBot) (botArticles sampleBot) [] = None"
    by (simp add: findArticleByKeyword_def)
  have ai9: "askAi sampleBot [] Concise = None"
    by (simp add: askAi_def askOpenAIForLaborHelp_def sampleBot_def)
  have "handleEvent sampleBot ?e9
      = [ReplyText (replyToken ?e9)
           (if truthyStr (askAi sampleBot [] Concise)
            then FallbackAi (the (askAi sampleBot [] Concise)) else FallbackGuide [])]"
    by (rule T9 [THEN conjunct2, THEN conjunct2, THEN conjunct1, THEN mp, OF _ _ p9,
          THEN conjunct2, THEN conjunct2, THEN mp, OF _ _ c9, THEN conjunct2, THEN mp, OF _ _ m9,
          THEN conjunct2, THEN mp, OF _ _ a9, THEN conjunct2, THEN mp, OF _ _ f9,
          THEN conjunct2, THEN mp, OF _ _ k9])
      simp_all
  then have nine: "handleEvent sampleBot ?e9 = [ReplyText (asc ''token-1'') (FallbackGuide [])]"
    by (simp add: ai9)
  from f1 x1 one two three four seven eight k5 five six nine show ?thesis by (intro conjI)
qed

end
